theory Spec2Isabelle
  imports Main "HOL-Library.Word"
begin

section \<open>The footprint profiler and the morph identifier parser of stf_tools\<close>

text \<open>
  A shallow embedding of \<^verbatim>\<open>tools/stf_imem/stf_imem.hpp\<close> (classes \<^verbatim>\<open>IMemData\<close>,
  \<^verbatim>\<open>IMemMapVec\<close>, \<^verbatim>\<open>IMemMapVecIntf\<close>, \<^verbatim>\<open>IMem\<close>, \<^verbatim>\<open>JavaIMem\<close>) and of
  \<^verbatim>\<open>STFMorpher::convertMorphId_\<close> in \<^verbatim>\<open>tools/stf_morph/stf_morpher.hpp\<close>.

  \<^item> \<^verbatim>\<open>uint64_t\<close> and \<^verbatim>\<open>uint32_t\<close> are \<open>64 word\<close> and \<open>32 word\<close>: \<open>+\<close> and \<open>-\<close> wrap,
    \<open><\<close> is the unsigned order. An \<^verbatim>\<open>int64_t\<close> stride is kept as the \<open>64 word\<close> with the
    same bits (\<open>sint\<close> reads it).
  \<^item> \<^verbatim>\<open>std::map<uint64_t, IMemData>\<close> is an association list kept in ascending key
    order; iterating the list is iterating the map.
  \<^item> \<^verbatim>\<open>std::vector<IMemMap>\<close> is a list of such tables, the iterator \<^verbatim>\<open>itv_\<close> an index.
  \<^item> \<^verbatim>\<open>std::cerr\<close> is a list of diagnostics carried in the state.
  \<^item> a reference \<^verbatim>\<open>cur->second\<close> is read, threaded through the calls that mutate
    it, and written back.
\<close>

type_synonym u64 = "64 word"
type_synonym u32 = "32 word"

subsection \<open>The instruction event and the configuration\<close>

text \<open>\<^verbatim>\<open>stf::STFInst\<close> is external; the record holds what its accessors return.\<close>

record STFInst =
  index :: u64
  pc :: u64
  inst_opcode :: u32
  isOpcode16 :: bool
  valid :: bool
  isFault :: bool
  isLoad :: bool
  isStore :: bool
  isTakenBranch :: bool
  hwtid :: u32
  pid :: u32
  tid :: u32
  getMemoryReads :: "u64 list"
  getMemoryWrites :: "u64 list"

text \<open>The fields of \<^verbatim>\<open>STFImemConfig\<close> that the counting and ranking code reads.\<close>

record STFImemConfig =
  g_hw_tid :: u32
  g_pid :: u32
  g_tid :: u32
  keep_count :: u64
  runlength_count :: u64
  warmup_count :: u64
  sort_output :: bool

subsection \<open>IMemData\<close>

definition MAX_LHIST :: nat where
  "MAX_LHIST = 50"

text \<open>
  \<^verbatim>\<open>recent_strides_\<close> is a vector of \<^verbatim>\<open>MAX_LHIST_\<close> strides, \<^verbatim>\<open>branch_lhr_\<close> a
  \<^verbatim>\<open>std::bitset<MAX_LHIST_>\<close>, here the list of its bits from position 0. The two
  cursors stay below \<^verbatim>\<open>MAX_LHIST_\<close>, so they are naturals.
\<close>

record IMemData =
  is_16bit :: bool
  opcode :: u32
  phys_pc :: u64
  warmup :: u64
  runlength :: u64
  count :: u64
  is_loadstore :: bool
  last_address :: u64
  recent_strides :: "u64 list"
  recent_strides_idx :: nat
  is_branch :: bool
  branch_lhr :: "bool list"
  branch_lhr_idx :: nat

definition nextStride :: "u64 \<Rightarrow> IMemData \<Rightarrow> IMemData" where
  "nextStride curr_addr d =
     d\<lparr>recent_strides := (recent_strides d)[recent_strides_idx d := curr_addr - last_address d],
       recent_strides_idx :=
         (if recent_strides_idx d = MAX_LHIST - 1 then 0 else recent_strides_idx d + 1),
       last_address := curr_addr\<rparr>"

definition nextBranchHistory :: "bool \<Rightarrow> IMemData \<Rightarrow> IMemData" where
  "nextBranchHistory taken d =
     d\<lparr>is_branch := True,
       branch_lhr := (branch_lhr d)[branch_lhr_idx d := taken],
       branch_lhr_idx :=
         (if branch_lhr_idx d + 1 = MAX_LHIST then 0 else branch_lhr_idx d + 1)\<rparr>"

text \<open>The seven-argument constructor; the other three delegate to it.\<close>

definition IMemData_init :: "bool \<Rightarrow> u32 \<Rightarrow> u64 \<Rightarrow> bool \<Rightarrow> bool \<Rightarrow> bool \<Rightarrow> u64 \<Rightarrow> IMemData" where
  "IMemData_init is16 opc physpc in_warmup isbr br_taken mem_addr =
     (let d = \<lparr>is_16bit = is16,
                opcode = opc,
                phys_pc = physpc,
                warmup = (if in_warmup then 1 else 0),
                runlength = (if in_warmup then 0 else 1),
                count = 1,
                is_loadstore = (mem_addr \<noteq> 0),
                last_address = mem_addr,
                recent_strides = replicate MAX_LHIST 0,
                recent_strides_idx = 0,
                is_branch = isbr,
                branch_lhr = replicate MAX_LHIST False,
                branch_lhr_idx = 0\<rparr>
      in if is_branch d then nextBranchHistory br_taken d else d)"

definition IMemData_plain :: "bool \<Rightarrow> u32 \<Rightarrow> u64 \<Rightarrow> bool \<Rightarrow> IMemData" where
  "IMemData_plain is16 opc physpc in_warmup =
     IMemData_init is16 opc physpc in_warmup False False 0"

definition IMemData_branch :: "bool \<Rightarrow> u32 \<Rightarrow> u64 \<Rightarrow> bool \<Rightarrow> bool \<Rightarrow> bool \<Rightarrow> IMemData" where
  "IMemData_branch is16 opc physpc in_warmup isbr br_taken =
     IMemData_init is16 opc physpc in_warmup isbr br_taken 0"

definition IMemData_mem :: "bool \<Rightarrow> u32 \<Rightarrow> u64 \<Rightarrow> bool \<Rightarrow> u64 \<Rightarrow> IMemData" where
  "IMemData_mem is16 opc physpc in_warmup mem_addr =
     IMemData_init is16 opc physpc in_warmup False False mem_addr"

definition opcodeMatch :: "IMemData \<Rightarrow> u32 \<Rightarrow> bool" where
  "opcodeMatch d opc \<longleftrightarrow> opcode d = opc"

definition incCount :: "IMemData \<Rightarrow> IMemData" where
  "incCount d = d\<lparr>count := count d + 1\<rparr>"

definition incWarmup :: "IMemData \<Rightarrow> IMemData" where
  "incWarmup d = d\<lparr>warmup := warmup d + 1\<rparr>"

definition incRunLength :: "IMemData \<Rightarrow> IMemData" where
  "incRunLength d = d\<lparr>runlength := runlength d + 1\<rparr>"

definition getOpcodeSize :: "IMemData \<Rightarrow> u32" where
  "getOpcodeSize d = (if is_16bit d then 2 else 4)"

subsection \<open>IMemMap: the ordered map from PC to IMemData\<close>

type_synonym IMemMap = "(u64 \<times> IMemData) list"

text \<open>\<^verbatim>\<open>std::map::find\<close>: the entry at the key, or \<open>None\<close> for \<^verbatim>\<open>end()\<close>.\<close>

fun IMemMap_find :: "IMemMap \<Rightarrow> u64 \<Rightarrow> IMemData option" where
  "IMemMap_find [] key = None"
| "IMemMap_find ((k, d) # m) key = (if k = key then Some d else IMemMap_find m key)"

text \<open>\<^verbatim>\<open>std::map::insert\<close>: nothing changes when the key is there already.\<close>

fun IMemMap_insert :: "u64 \<times> IMemData \<Rightarrow> IMemMap \<Rightarrow> IMemMap" where
  "IMemMap_insert kv [] = [kv]"
| "IMemMap_insert kv ((k, d) # m) =
     (if fst kv < k then kv # (k, d) # m
      else if fst kv = k then (k, d) # m
      else (k, d) # IMemMap_insert kv m)"

text \<open>Writing through the reference \<^verbatim>\<open>cur->second\<close> of the entry found at a key.\<close>

fun IMemMap_assign :: "u64 \<Rightarrow> IMemData \<Rightarrow> IMemMap \<Rightarrow> IMemMap" where
  "IMemMap_assign key v [] = []"
| "IMemMap_assign key v ((k, d) # m) =
     (if k = key then (k, v) # m else (k, d) # IMemMap_assign key v m)"

subsection \<open>IMemMapVec: the profiler state\<close>

datatype diag =
  InvalidInst u64 u32 u64
| TwoOpcodes u64 u32 u32
| EmptyImem

record IMemMapVec =
  imem_mapvec :: "IMemMap list"
  itv :: nat
  inst_count :: u64
  max_count :: u64
  max_warmup :: u64
  max_run_length :: u64
  cerr :: "diag list"

text \<open>The constructor: one empty table, \<^verbatim>\<open>itv_\<close> at it.\<close>

definition IMemMapVec_init :: IMemMapVec where
  "IMemMapVec_init =
     \<lparr>imem_mapvec = [[]], itv = 0, inst_count = 0,
      max_count = 0, max_warmup = 0, max_run_length = 0, cerr = []\<rparr>"

definition createIMem :: "u64 \<Rightarrow> STFInst \<Rightarrow> u64 \<Rightarrow> bool \<Rightarrow> u64 \<times> IMemData" where
  "createIMem key inst physpc in_warmup =
     (key, IMemData_plain (isOpcode16 inst) (inst_opcode inst) physpc in_warmup)"

definition createIMem_addr :: "u64 \<Rightarrow> STFInst \<Rightarrow> u64 \<Rightarrow> bool \<Rightarrow> u64 \<Rightarrow> u64 \<times> IMemData" where
  "createIMem_addr key inst physpc in_warmup addr =
     (key, IMemData_mem (isOpcode16 inst) (inst_opcode inst) physpc in_warmup addr)"

definition createIMem_branch :: "u64 \<Rightarrow> STFInst \<Rightarrow> u64 \<Rightarrow> bool \<Rightarrow> bool \<Rightarrow> bool \<Rightarrow> u64 \<times> IMemData" where
  "createIMem_branch key inst physpc in_warmup isbr br_taken =
     (key, IMemData_branch (isOpcode16 inst) (inst_opcode inst) physpc in_warmup isbr br_taken)"

definition incCount_vec :: "IMemMapVec \<times> IMemData \<Rightarrow> IMemMapVec \<times> IMemData" where
  "incCount_vec sd =
     (let d = incCount (snd sd)
      in ((fst sd)\<lparr>max_count := max (max_count (fst sd)) (count d)\<rparr>, d))"

definition incWarmup_vec :: "IMemMapVec \<times> IMemData \<Rightarrow> IMemMapVec \<times> IMemData" where
  "incWarmup_vec sd =
     (let d = incWarmup (snd sd)
      in ((fst sd)\<lparr>max_warmup := max (max_warmup (fst sd)) (warmup d)\<rparr>, d))"

definition incRunLength_vec :: "IMemMapVec \<times> IMemData \<Rightarrow> IMemMapVec \<times> IMemData" where
  "incRunLength_vec sd =
     (let d = incRunLength (snd sd)
      in ((fst sd)\<lparr>max_run_length := max (max_run_length (fst sd)) (runlength d)\<rparr>, d))"

text \<open>
  The counter updates of the "key and opcode found" path. The same six lines stand
  in \<^verbatim>\<open>IMem::count_impl\<close> and twice in \<^verbatim>\<open>JavaIMem::count_impl\<close>.
\<close>

definition count_found :: "STFImemConfig \<Rightarrow> bool \<Rightarrow> IMemMapVec \<times> IMemData \<Rightarrow> IMemMapVec \<times> IMemData" where
  "count_found config in_warmup sd =
     (let sd1 = incCount_vec sd
      in if in_warmup then incWarmup_vec sd1
         else if inst_count (fst sd1) < runlength_count config then incRunLength_vec sd1
         else sd1)"

text \<open>Storing the mutated entry back into table \<open>i\<close>, and inserting into table \<open>i\<close>.\<close>

definition store_entry :: "nat \<Rightarrow> u64 \<Rightarrow> IMemMapVec \<times> IMemData \<Rightarrow> IMemMapVec" where
  "store_entry i key sd =
     (fst sd)\<lparr>imem_mapvec :=
        (imem_mapvec (fst sd))[i := IMemMap_assign key (snd sd) (imem_mapvec (fst sd) ! i)]\<rparr>"

definition insert_entry :: "nat \<Rightarrow> u64 \<times> IMemData \<Rightarrow> IMemMapVec \<Rightarrow> IMemMapVec" where
  "insert_entry i kv st =
     st\<lparr>imem_mapvec := (imem_mapvec st)[i := IMemMap_insert kv (imem_mapvec st ! i)]\<rparr>"

subsection \<open>IMem::count_impl\<close>

text \<open>The loop \<^verbatim>\<open>for(const auto& m: ...) addr = m.getAddress();\<close>\<close>

fun addr_loop :: "u64 \<Rightarrow> u64 list \<Rightarrow> u64" where
  "addr_loop addr [] = addr"
| "addr_loop addr (m # ms) = addr_loop m ms"

definition IMem_count_impl :: "STFImemConfig \<Rightarrow> STFInst \<Rightarrow> IMemMapVec \<Rightarrow> IMemMapVec" where
  "IMem_count_impl config inst st =
     (let key = pc inst;
          physpc = 0;
          cur = IMemMap_find (imem_mapvec st ! itv st) key;
          in_warmup = inst_count st < warmup_count config;
          is_load_store_inst = (isLoad inst \<or> isStore inst);
          addr = (if isLoad inst then addr_loop 0 (getMemoryReads inst)
                  else if isStore inst then addr_loop 0 (getMemoryWrites inst)
                  else 0);
          is_br = isTakenBranch inst;
          br_taken = isTakenBranch inst
      in case cur of
           None \<Rightarrow>
             (if is_load_store_inst then
                insert_entry (itv st) (createIMem_addr key inst physpc in_warmup addr) st
              else if is_br then
                insert_entry (itv st) (createIMem_branch key inst physpc in_warmup is_br br_taken) st
              else
                insert_entry (itv st) (createIMem key inst physpc in_warmup) st)
         | Some d \<Rightarrow>
             (if opcodeMatch d (inst_opcode inst) then
                (let sd = count_found config in_warmup (st, d);
                     d' = (if is_load_store_inst then nextStride addr (snd sd)
                           else if is_br then nextBranchHistory br_taken (snd sd)
                           else snd sd)
                 in store_entry (itv st) key (fst sd, d'))
              else
                st\<lparr>cerr := cerr st @ [TwoOpcodes key (opcode d) (inst_opcode inst)]\<rparr>))"

subsection \<open>JavaIMem::count_impl\<close>

text \<open>
  The \<^verbatim>\<open>while\<close> loop over the tables, from table \<open>i\<close> on. The result is the table
  index \<^verbatim>\<open>it\<close> and the entry \<^verbatim>\<open>cur\<close> where the loop broke with \<^verbatim>\<open>found\<close> set (if it
  did), and \<^verbatim>\<open>itt\<close>, the last table seen without the key (\<open>None\<close> for
  \<^verbatim>\<open>imem_mapvec_.end()\<close>).
\<close>

fun java_search ::
  "u64 \<Rightarrow> u32 \<Rightarrow> IMemMap list \<Rightarrow> nat \<Rightarrow> nat option \<Rightarrow> (nat \<times> IMemData) option \<times> nat option" where
  "java_search key opc [] i itt = (None, itt)"
| "java_search key opc (m # ms) i itt =
     (case IMemMap_find m key of
        Some d \<Rightarrow> (if opcodeMatch d opc then (Some (i, d), itt)
                   else java_search key opc ms (i + 1) itt)
      | None \<Rightarrow> java_search key opc ms (i + 1) (Some i))"

text \<open>The \<^verbatim>\<open>else\<close> branch: "may use multiple maps for Java trace".\<close>

definition JavaIMem_other_maps :: "STFImemConfig \<Rightarrow> STFInst \<Rightarrow> IMemMapVec \<Rightarrow> IMemMapVec" where
  "JavaIMem_other_maps config inst st =
     (let key = pc inst;
          physpc = 0;
          in_warmup = inst_count st < warmup_count config
      in case java_search key (inst_opcode inst) (imem_mapvec st) 0 None of
           (Some (it, d), itt) \<Rightarrow>
             (store_entry it key (count_found config in_warmup (st, d)))\<lparr>itv := it\<rparr>
         | (None, itt) \<Rightarrow>
             (let st1 =
                (case itt of
                   None \<Rightarrow> st\<lparr>imem_mapvec := [] # imem_mapvec st, itv := 0\<rparr>
                 | Some t \<Rightarrow>
                     (if IMemMap_find (imem_mapvec st ! itv st) key \<noteq> None
                      then st\<lparr>itv := t\<rparr> else st))
              in insert_entry (itv st1) (createIMem key inst physpc in_warmup) st1))"

definition JavaIMem_count_impl :: "STFImemConfig \<Rightarrow> STFInst \<Rightarrow> IMemMapVec \<Rightarrow> IMemMapVec" where
  "JavaIMem_count_impl config inst st =
     (let key = pc inst;
          cur = IMemMap_find (imem_mapvec st ! itv st) key;
          in_warmup = inst_count st < warmup_count config
      in case cur of
           Some d \<Rightarrow>
             (if opcodeMatch d (inst_opcode inst)
              then store_entry (itv st) key (count_found config in_warmup (st, d))
              else JavaIMem_other_maps config inst st)
         | None \<Rightarrow> JavaIMem_other_maps config inst st)"

subsection \<open>IMemMapVecIntf::processTrace_\<close>

text \<open>
  The loop over the events the reader yields; \<open>impl\<close> is the \<^verbatim>\<open>count_impl\<close> of the
  derived class. An event is admitted when no filter skips it.
\<close>

definition admitted :: "STFImemConfig \<Rightarrow> STFInst \<Rightarrow> bool" where
  "admitted config inst \<longleftrightarrow>
     \<not> (g_hw_tid config \<noteq> 0 \<and> g_hw_tid config \<noteq> hwtid inst) \<and>
     \<not> (g_pid config \<noteq> 0 \<and> g_pid config \<noteq> pid inst) \<and>
     \<not> (g_tid config \<noteq> 0 \<and> g_tid config \<noteq> tid inst) \<and>
     \<not> isFault inst"

fun processTrace ::
  "(STFImemConfig \<Rightarrow> STFInst \<Rightarrow> IMemMapVec \<Rightarrow> IMemMapVec) \<Rightarrow> STFImemConfig \<Rightarrow> STFInst list \<Rightarrow>
   IMemMapVec \<Rightarrow> IMemMapVec" where
  "processTrace impl config [] st = st"
| "processTrace impl config (inst # insts) st =
     (let st1 = (if \<not> valid inst
                 then st\<lparr>cerr := cerr st @ [InvalidInst (index inst) (inst_opcode inst) (pc inst)]\<rparr>
                 else st)
      in if g_hw_tid config \<noteq> 0 \<and> g_hw_tid config \<noteq> hwtid inst then
           processTrace impl config insts st1
         else if g_pid config \<noteq> 0 \<and> g_pid config \<noteq> pid inst then
           processTrace impl config insts st1
         else if g_tid config \<noteq> 0 \<and> g_tid config \<noteq> tid inst then
           processTrace impl config insts st1
         else if isFault inst then
           processTrace impl config insts st1
         else
           (let st2 = impl config inst st1;
                st3 = st2\<lparr>inst_count := inst_count st2 + 1\<rparr>
            in if inst_count st3 \<ge> keep_count config then st3
               else processTrace impl config insts st3))"

subsection \<open>IMemMapVec::print\<close>

text \<open>
  \<^verbatim>\<open>SortedMapKey\<close> with its \<^verbatim>\<open>operator<\<close>, and the \<^verbatim>\<open>std::multimap\<close> from keys to
  blocks as a list in ascending key order; \<^verbatim>\<open>emplace\<close> puts a new element after the
  elements with an equivalent key. A block holds map iterators, here the entries they
  point at.
\<close>

record SortedMapKey =
  key_count :: u64
  key_pc :: u64

definition key_less :: "SortedMapKey \<Rightarrow> SortedMapKey \<Rightarrow> bool" where
  "key_less a b \<longleftrightarrow>
     key_count a < key_count b \<or> (key_count a = key_count b \<and> key_pc a > key_pc b)"

type_synonym SortedVector = "(u64 \<times> IMemData) list"
type_synonym SortedMap = "(SortedMapKey \<times> SortedVector) list"

fun multimap_emplace :: "SortedMapKey \<times> SortedVector \<Rightarrow> SortedMap \<Rightarrow> SortedMap" where
  "multimap_emplace kv [] = [kv]"
| "multimap_emplace kv (x # xs) =
     (if key_less (fst kv) (fst x) then kv # x # xs else x # multimap_emplace kv xs)"

text \<open>
  The lines of the two reports, without their formatting: the "MAP n" header, the gap
  marker \<^verbatim>\<open>"..."\<close> and the line of \<^verbatim>\<open>printIMemItem_\<close>; the totals, the header of a
  block (its count and its number of addresses) and the line of \<^verbatim>\<open>printSortedIMemItem_\<close>
  with the cumulative count it is given.
\<close>

datatype report_line =
  MapHeader u32
| GapMarker
| ItemLine u64 IMemData

datatype sorted_line =
  TotalLine u64 u64
| BlockLine u64 nat
| SortedItemLine u64 IMemData u64

text \<open>The local variables of \<^verbatim>\<open>print\<close> that the two nested loops update.\<close>

record print_locals =
  prev_pc :: u64
  prev_size :: u32
  map_num :: u32
  current_block :: SortedVector
  sorted_map :: SortedMap
  first :: bool
  block_count :: u64
  os :: "report_line list"

definition print_init :: print_locals where
  "print_init =
     \<lparr>prev_pc = 0, prev_size = 0, map_num = 1, current_block = [], sorted_map = [],
      first = True, block_count = 0, os = []\<rparr>"

text \<open>
  \<^verbatim>\<open>sorted_map.emplace(...)\<close> of the current block under the key made of
  \<^verbatim>\<open>block_count\<close> and the PC of \<^verbatim>\<open>current_block.front()\<close> (the block is not empty where
  the code does this).
\<close>

definition emplace_block :: "print_locals \<Rightarrow> SortedMap" where
  "emplace_block a =
     multimap_emplace
       (\<lparr>key_count = block_count a, key_pc = fst (hd (current_block a))\<rparr>, current_block a)
       (sorted_map a)"

text \<open>The body of the inner loop, for the entry \<open>cur\<close>; \<open>is_stdout\<close> is \<^verbatim>\<open>os.isStdout()\<close>.\<close>

definition print_item :: "STFImemConfig \<Rightarrow> bool \<Rightarrow> print_locals \<Rightarrow> u64 \<times> IMemData \<Rightarrow> print_locals" where
  "print_item config is_stdout a cur =
     (let inst_pc = fst cur;
          cnt = count (snd cur);
          a1 = (if first a \<or> prev_pc a + ucast (prev_size a) \<noteq> inst_pc then
                  (if first a then a\<lparr>first := False\<rparr>
                   else
                     (let a' = (if \<not> sort_output config then a\<lparr>os := os a @ [GapMarker]\<rparr> else a)
                      in if sort_output config
                         then a'\<lparr>sorted_map := emplace_block a', current_block := [],
                                 block_count := 0\<rparr>
                         else a'))
                else a);
          a2 = (if sort_output config
                then a1\<lparr>block_count := block_count a1 + cnt,
                        current_block := current_block a1 @ [cur]\<rparr>
                else a1);
          a3 = (if \<not> is_stdout \<or> \<not> sort_output config
                then a2\<lparr>os := os a2 @ [ItemLine inst_pc (snd cur)]\<rparr>
                else a2)
      in a3\<lparr>prev_pc := inst_pc, prev_size := getOpcodeSize (snd cur)\<rparr>)"

text \<open>The body of the outer loop, for one table, and the outer loop from \<^verbatim>\<open>rbegin()\<close>.\<close>

definition print_map :: "STFImemConfig \<Rightarrow> bool \<Rightarrow> print_locals \<Rightarrow> IMemMap \<Rightarrow> print_locals" where
  "print_map config is_stdout a m =
     (let a1 = foldl (print_item config is_stdout) (a\<lparr>os := os a @ [MapHeader (map_num a)]\<rparr>) m
      in a1\<lparr>map_num := map_num a1 + 1\<rparr>)"

definition print_maps :: "STFImemConfig \<Rightarrow> bool \<Rightarrow> IMemMapVec \<Rightarrow> print_locals" where
  "print_maps config is_stdout st =
     foldl (print_map config is_stdout) print_init (rev (imem_mapvec st))"

text \<open>
  The blocks in the order the ranked report emits them: the multimap, after the last
  block was put in, from \<^verbatim>\<open>rbegin()\<close>.
\<close>

definition ranked_blocks :: "STFImemConfig \<Rightarrow> bool \<Rightarrow> IMemMapVec \<Rightarrow> SortedMap" where
  "ranked_blocks config is_stdout st =
     (let a = print_maps config is_stdout st
      in rev (if sort_output config \<and> current_block a \<noteq> [] then emplace_block a
              else sorted_map a))"

text \<open>
  The loops over the blocks and over the entries of a block; they return
  \<^verbatim>\<open>cumulative_count\<close> and the lines written.
\<close>

fun sorted_items :: "u64 \<Rightarrow> SortedVector \<Rightarrow> u64 \<times> sorted_line list" where
  "sorted_items cumulative_count [] = (cumulative_count, [])"
| "sorted_items cumulative_count (it # its) =
     (let c = cumulative_count + count (snd it);
          r = sorted_items c its
      in (fst r, SortedItemLine (fst it) (snd it) c # snd r))"

fun sorted_report :: "u64 \<Rightarrow> SortedMap \<Rightarrow> u64 \<times> sorted_line list" where
  "sorted_report cumulative_count [] = (cumulative_count, [])"
| "sorted_report cumulative_count (b # bs) =
     (let r1 = sorted_items cumulative_count (snd b);
          r2 = sorted_report (fst r1) bs
      in (fst r2, BlockLine (key_count (fst b)) (length (snd b)) # snd r1 @ snd r2))"

text \<open>
  What \<^verbatim>\<open>print\<close> has written when it ends, whichever way it ends: the address-ordered
  report, the ranked report if there is one, and what went to \<^verbatim>\<open>std::cerr\<close>. Both
  reports are complete before the \<^verbatim>\<open>stf_assert\<close> at the end is reached.
\<close>

record print_result =
  linear_report :: "report_line list"
  sorted_report_lines :: "sorted_line list option"
  print_cerr :: "diag list"

definition print_written :: "STFImemConfig \<Rightarrow> bool \<Rightarrow> IMemMapVec \<Rightarrow> print_result" where
  "print_written config is_stdout st =
     (let a = print_maps config is_stdout st;
          blocks = ranked_blocks config is_stdout st
      in if sort_output config then
           (if blocks = [] then
              \<lparr>linear_report = os a, sorted_report_lines = None, print_cerr = [EmptyImem]\<rparr>
            else
              \<lparr>linear_report = os a,
               sorted_report_lines =
                 Some (TotalLine (inst_count st) (max_count st) # snd (sorted_report 0 blocks)),
               print_cerr = []\<rparr>)
         else \<lparr>linear_report = os a, sorted_report_lines = None, print_cerr = []\<rparr>)"

text \<open>
  How \<^verbatim>\<open>print\<close> ends: with the exception of the failed \<^verbatim>\<open>stf_assert\<close>, which carries
  the two counts, or by returning, with what it has written.
\<close>

datatype print_error = CumulativeMismatch u64 u64

definition IMemMapVec_print :: "STFImemConfig \<Rightarrow> bool \<Rightarrow> IMemMapVec \<Rightarrow> print_error + print_result" where
  "IMemMapVec_print config is_stdout st =
     (let blocks = ranked_blocks config is_stdout st;
          cumulative_count = fst (sorted_report 0 blocks)
      in if sort_output config \<and> blocks \<noteq> [] \<and> cumulative_count \<noteq> inst_count st
         then Inl (CumulativeMismatch cumulative_count (inst_count st))
         else Inr (print_written config is_stdout st))"

subsection \<open>STFMorpher::convertMorphId_\<close>

datatype MorphType = STFID | PC | NUM_TYPES

text \<open>
  What the function can throw: \<^verbatim>\<open>std::invalid_argument\<close> and \<^verbatim>\<open>std::out_of_range\<close> from
  \<^verbatim>\<open>std::stoull\<close>, and the \<^verbatim>\<open>stf_throw("Invalid morph type")\<close> after the switch.
\<close>

datatype morph_error = InvalidArgument | OutOfRange | InvalidMorphType

text \<open>
  \<^verbatim>\<open>std::stoull(str, nullptr, base)\<close> for a base from 2 to 36, as the C++ standard
  defines it through \<^verbatim>\<open>strtoull\<close>: leading white space is skipped, one sign is accepted,
  base 16 accepts a \<^verbatim>\<open>0x\<close> or \<^verbatim>\<open>0X\<close> prefix before a hexadecimal digit, and the longest
  run of digits of the base is converted, the characters after it being ignored. No digit
  at all is \<^verbatim>\<open>std::invalid_argument\<close>, a value that does not fit 64 bits is
  \<^verbatim>\<open>std::out_of_range\<close>, and a minus sign negates the value modulo \<open>2^64\<close>.
\<close>

definition isspace :: "char \<Rightarrow> bool" where
  "isspace c \<longleftrightarrow> (of_char c :: nat) \<in> {32, 9, 10, 11, 12, 13}"

definition digit_val :: "char \<Rightarrow> nat" where
  "digit_val c =
     (let n = (of_char c :: nat)
      in if 48 \<le> n \<and> n \<le> 57 then n - 48
         else if 97 \<le> n \<and> n \<le> 122 then n - 87
         else if 65 \<le> n \<and> n \<le> 90 then n - 55
         else 36)"

definition is_digit :: "nat \<Rightarrow> char \<Rightarrow> bool" where
  "is_digit base c \<longleftrightarrow> digit_val c < base"

definition skip_sign :: "string \<Rightarrow> bool \<times> string" where
  "skip_sign s =
     (case s of
        [] \<Rightarrow> (False, [])
      | c # r \<Rightarrow> if c = CHR ''-'' then (True, r)
                 else if c = CHR ''+'' then (False, r)
                 else (False, s))"

definition skip_prefix :: "nat \<Rightarrow> string \<Rightarrow> string" where
  "skip_prefix base s =
     (if base = 16 then
        (case s of
           z # x # d # r \<Rightarrow>
             if z = CHR ''0'' \<and> (x = CHR ''x'' \<or> x = CHR ''X'') \<and> is_digit 16 d then d # r else s
         | _ \<Rightarrow> s)
      else s)"

definition stoull :: "nat \<Rightarrow> string \<Rightarrow> morph_error + u64" where
  "stoull base str =
     (let s1 = dropWhile isspace str;
          sg = skip_sign s1;
          s3 = skip_prefix base (snd sg);
          ds = takeWhile (is_digit base) s3
      in if ds = [] then Inl InvalidArgument
         else
           (let v = foldl (\<lambda>acc c. acc * base + digit_val c) 0 ds
            in if v \<ge> 2 ^ 64 then Inl OutOfRange
               else Inr (if fst sg then - of_nat v else of_nat v)))"

fun convertMorphId :: "MorphType \<Rightarrow> string \<Rightarrow> morph_error + u64" where
  "convertMorphId STFID id_str = stoull 10 id_str"
| "convertMorphId PC id_str = stoull 16 id_str"
| "convertMorphId NUM_TYPES id_str = Inl InvalidMorphType"

subsection \<open>Sequences of pushes into the local-history buffers\<close>

text \<open>Calling \<^verbatim>\<open>nextStride\<close> with each address of a list in turn, and
  \<^verbatim>\<open>nextBranchHistory\<close> with each outcome.\<close>

definition push_strides :: "IMemData \<Rightarrow> u64 list \<Rightarrow> IMemData" where
  "push_strides d as = foldl (\<lambda>d a. nextStride a d) d as"

definition push_branches :: "IMemData \<Rightarrow> bool list \<Rightarrow> IMemData" where
  "push_branches d bs = foldl (\<lambda>d b. nextBranchHistory b d) d bs"

text \<open>The values those calls push: each address minus the one before it.\<close>

fun strides_of :: "u64 \<Rightarrow> u64 list \<Rightarrow> u64 list" where
  "strides_of l [] = []"
| "strides_of l (a # as) = (a - l) # strides_of a as"

text \<open>Both buffers have \<^verbatim>\<open>MAX_LHIST_\<close> slots and both cursors point into them.\<close>

definition lhist_wf :: "IMemData \<Rightarrow> bool" where
  "lhist_wf d \<longleftrightarrow>
     length (recent_strides d) = MAX_LHIST \<and> recent_strides_idx d < MAX_LHIST \<and>
     length (branch_lhr d) = MAX_LHIST \<and> branch_lhr_idx d < MAX_LHIST"

text \<open>A fresh load entry, 53 addresses whose strides are the distinct values 10, 17, ..., 374, and 53 outcomes.\<close>

definition lhist_demo_entry :: IMemData where
  "lhist_demo_entry = IMemData_init False 0x13 0 False False False 0x1000"

definition lhist_demo_addrs :: "u64 list" where
  "lhist_demo_addrs =
     [0x100a, 0x101b, 0x1033, 0x1052, 0x1078, 0x10a5, 0x10d9, 0x1114, 0x1156, 0x119f,
      0x11ef, 0x1246, 0x12a4, 0x1309, 0x1375, 0x13e8, 0x1462, 0x14e3, 0x156b, 0x15fa,
      0x1690, 0x172d, 0x17d1, 0x187c, 0x192e, 0x19e7, 0x1aa7, 0x1b6e, 0x1c3c, 0x1d11,
      0x1ded, 0x1ed0, 0x1fba, 0x20ab, 0x21a3, 0x22a2, 0x23a8, 0x24b5, 0x25c9, 0x26e4,
      0x2806, 0x292f, 0x2a5f, 0x2b96, 0x2cd4, 0x2e19, 0x2f65, 0x30b8, 0x3212, 0x3373,
      0x34db, 0x364a, 0x37c0]"

definition lhist_demo_bits :: "bool list" where
  "lhist_demo_bits =
     [False, False, True, False, False, True, False, False, True, False, False, True, False,
      False, True, False, False, True, False, False, True, False, False, True, False, False,
      True, False, False, True, False, False, True, False, False, True, False, False, True,
      False, False, True, False, False, True, False, False, True, False, False, True, False,
      False]"

subsection \<open>Well-formed states and sums over the tables\<close>

text \<open>
  What the C++ containers guarantee by construction: \<^verbatim>\<open>itv_\<close> points at a table of the
  vector, and a \<^verbatim>\<open>std::map\<close> holds its keys once each, in ascending order.
\<close>

definition vec_wf :: "IMemMapVec \<Rightarrow> bool" where
  "vec_wf st \<longleftrightarrow>
     itv st < length (imem_mapvec st) \<and>
     (\<forall>m \<in> set (imem_mapvec st). sorted_wrt (<) (map fst m))"

text \<open>The sum of one counter over the entries of a table, and over all tables.\<close>

definition table_sum :: "(IMemData \<Rightarrow> u64) \<Rightarrow> IMemMap \<Rightarrow> u64" where
  "table_sum g m = sum_list (map (\<lambda>kv. g (snd kv)) m)"

definition vec_sum :: "(IMemData \<Rightarrow> u64) \<Rightarrow> IMemMapVec \<Rightarrow> u64" where
  "vec_sum g st = sum_list (map (table_sum g) (imem_mapvec st))"

text \<open>An entry that was never marked as a branch and never had an outcome pushed.\<close>

definition never_branch :: "IMemData \<Rightarrow> bool" where
  "never_branch d \<longleftrightarrow>
     \<not> is_branch d \<and> branch_lhr d = replicate MAX_LHIST False \<and> branch_lhr_idx d = 0"

text \<open>
  How the warm-up and run-length sums may move in one step: neither moves, or exactly one
  of them grows by one.
\<close>

definition window_step :: "IMemMapVec \<Rightarrow> IMemMapVec \<Rightarrow> bool" where
  "window_step st st' \<longleftrightarrow>
     (vec_sum warmup st' = vec_sum warmup st \<and> vec_sum runlength st' = vec_sum runlength st) \<or>
     (vec_sum warmup st' = vec_sum warmup st + 1 \<and> vec_sum runlength st' = vec_sum runlength st) \<or>
     (vec_sum warmup st' = vec_sum warmup st \<and> vec_sum runlength st' = vec_sum runlength st + 1)"

text \<open>
  The last address among the memory accesses \<^verbatim>\<open>IMem::count_impl\<close> looks at: the reads of
  a load, the writes of a store that is not a load; 0 when there is none.
\<close>

definition last_access_address :: "STFInst \<Rightarrow> u64" where
  "last_access_address inst =
     (let ms = (if isLoad inst then getMemoryReads inst else getMemoryWrites inst)
      in if ms = [] then 0 else last ms)"

text \<open>Two entries with the same branch flag, branch bitset and bitset cursor.\<close>

definition same_branch_state :: "IMemData \<Rightarrow> IMemData \<Rightarrow> bool" where
  "same_branch_state d d' \<longleftrightarrow>
     is_branch d' = is_branch d \<and> branch_lhr d' = branch_lhr d \<and>
     branch_lhr_idx d' = branch_lhr_idx d"

text \<open>
  The invariant of a run of the non-Java profiler: an entry at a PC where no event of the
  set \<open>S\<close> was a taken branch has never been marked as a branch.
\<close>

definition untaken_inv :: "STFInst set \<Rightarrow> IMemMapVec \<Rightarrow> bool" where
  "untaken_inv S st \<longleftrightarrow>
     vec_wf st \<and>
     (\<forall>key d. IMemMap_find (imem_mapvec st ! itv st) key = Some d \<longrightarrow>
        (\<forall>ev \<in> S. pc ev = key \<longrightarrow> \<not> isTakenBranch ev) \<longrightarrow> never_branch d)"

subsection \<open>Concrete inputs\<close>

text \<open>
  A configuration without filters, warm-up or caps that asks for the ranked report, and
  an instruction that is valid, full-width, not a fault, not a memory access and not a
  taken branch.
\<close>

definition demo_config :: STFImemConfig where
  "demo_config =
     \<lparr>g_hw_tid = 0, g_pid = 0, g_tid = 0, keep_count = 0xFFFFFFFFFFFFFFFF,
      runlength_count = 0xFFFFFFFFFFFFFFFF, warmup_count = 0, sort_output = True\<rparr>"

definition plain_inst :: "u64 \<Rightarrow> u32 \<Rightarrow> STFInst" where
  "plain_inst a opc =
     \<lparr>index = 1, pc = a, inst_opcode = opc, isOpcode16 = False, valid = True, isFault = False,
      isLoad = False, isStore = False, isTakenBranch = False, hwtid = 0, pid = 0, tid = 0,
      getMemoryReads = [], getMemoryWrites = []\<rparr>"

text \<open>A load with two memory reads, and a load whose only read is at address 0.\<close>

definition two_read_load :: STFInst where
  "two_read_load = (plain_inst 0x100 0x3)\<lparr>isLoad := True, getMemoryReads := [0x1000, 0x2000]\<rparr>"

definition zero_addr_load :: STFInst where
  "zero_addr_load = (plain_inst 0x100 0x3)\<lparr>isLoad := True, getMemoryReads := [0]\<rparr>"

text \<open>The state after \<^verbatim>\<open>IMem::count_impl\<close> saw opcode \<open>0x13\<close> at PC \<open>0x100\<close>.\<close>

definition one_entry_state :: IMemMapVec where
  "one_entry_state = IMem_count_impl demo_config (plain_inst 0x100 0x13) IMemMapVec_init"

text \<open>
  Two states of the Java variant: after a second opcode at PC \<open>0x100\<close> made a second
  table, and after a first opcode at PC \<open>0x200\<close> went into the active one. The entry
  that a plain instruction creates outside the warm-up window.
\<close>

definition two_table_state :: IMemMapVec where
  "two_table_state = JavaIMem_count_impl demo_config (plain_inst 0x100 0x33) one_entry_state"

definition three_entry_state :: IMemMapVec where
  "three_entry_state = JavaIMem_count_impl demo_config (plain_inst 0x200 0x55) two_table_state"

definition demo_entry :: "u32 \<Rightarrow> IMemData" where
  "demo_entry opc = IMemData_plain False opc 0 False"

text \<open>A taken branch at PC \<open>0x100\<close>.\<close>

definition taken_branch_inst :: STFInst where
  "taken_branch_inst = (plain_inst 0x100 0x13)\<lparr>isTakenBranch := True\<rparr>"

text \<open>A run with three separate blocks, two of them with the same count.\<close>

definition ranked_demo_state :: IMemMapVec where
  "ranked_demo_state =
     processTrace IMem_count_impl demo_config
       [plain_inst 0x100 0x13, plain_inst 0x100 0x13, plain_inst 0x200 0x13,
        plain_inst 0x300 0x13, plain_inst 0x300 0x13] IMemMapVec_init"

definition twice :: "IMemData \<Rightarrow> IMemData" where
  "twice d = d\<lparr>runlength := 2, count := 2\<rparr>"

text \<open>A run of the Java variant that sees two opcodes at one PC.\<close>

definition java_two_opcodes :: IMemMapVec where
  "java_two_opcodes =
     processTrace JavaIMem_count_impl demo_config [plain_inst 0x100 0x13, plain_inst 0x100 0x33]
       IMemMapVec_init"

subsection \<open>Reading the reports\<close>

text \<open>
  The order the claim gives for two blocks, on their keys: the larger aggregate count
  first, and the smaller starting PC first among equal counts.
\<close>

definition ranked_before :: "SortedMapKey \<Rightarrow> SortedMapKey \<Rightarrow> bool" where
  "ranked_before a b \<longleftrightarrow>
     key_count a > key_count b \<or> (key_count a = key_count b \<and> key_pc a \<le> key_pc b)"

text \<open>
  The sum of the entry counts of a block; a key that fits its block: the block is not
  empty, the key holds the PC of its first entry and the sum of its counts.
\<close>

definition block_sum :: "SortedVector \<Rightarrow> u64" where
  "block_sum blk = sum_list (map (\<lambda>e. count (snd e)) blk)"

definition block_key_ok :: "SortedMapKey \<times> SortedVector \<Rightarrow> bool" where
  "block_key_ok kb \<longleftrightarrow>
     snd kb \<noteq> [] \<and> key_pc (fst kb) = fst (hd (snd kb)) \<and> key_count (fst kb) = block_sum (snd kb)"

text \<open>
  Reading the ranked report back: a block header with its count and its number of
  addresses, and the item lines that follow it up to the next header.
\<close>

fun block_items :: "sorted_line list \<Rightarrow> SortedVector" where
  "block_items [] = []"
| "block_items (BlockLine c n # ls) = []"
| "block_items (TotalLine t m # ls) = block_items ls"
| "block_items (SortedItemLine a d c # ls) = (a, d) # block_items ls"

fun written_blocks :: "sorted_line list \<Rightarrow> ((u64 \<times> nat) \<times> SortedVector) list" where
  "written_blocks [] = []"
| "written_blocks (BlockLine c n # ls) = ((c, n), block_items ls) # written_blocks ls"
| "written_blocks (TotalLine t m # ls) = written_blocks ls"
| "written_blocks (SortedItemLine a d c # ls) = written_blocks ls"

text \<open>
  The order the claim gives, on two blocks as they stand in the report: the count of the
  header is larger, or it is the same and the PC of the first item line is not larger.
\<close>

definition block_before ::
  "(u64 \<times> nat) \<times> SortedVector \<Rightarrow> (u64 \<times> nat) \<times> SortedVector \<Rightarrow> bool" where
  "block_before x y \<longleftrightarrow>
     fst (fst x) > fst (fst y) \<or>
     (fst (fst x) = fst (fst y) \<and> fst (hd (snd x)) \<le> fst (hd (snd y)))"

text \<open>
  A block as written is sound: it has item lines, its header holds the sum of their
  counts and their number.
\<close>

definition block_sound :: "(u64 \<times> nat) \<times> SortedVector \<Rightarrow> bool" where
  "block_sound b \<longleftrightarrow>
     snd b \<noteq> [] \<and> fst (fst b) = block_sum (snd b) \<and> snd (fst b) = length (snd b)"

text \<open>The entries \<^verbatim>\<open>print\<close> has put into blocks so far.\<close>

definition blocks_entries :: "print_locals \<Rightarrow> SortedVector" where
  "blocks_entries a = concat (map snd (sorted_map a)) @ current_block a"

text \<open>
  What holds of the locals of \<^verbatim>\<open>print\<close> between two entries: the multimap is in key
  order, its keys fit their blocks, \<^verbatim>\<open>block_count\<close> is the sum for the current block,
  and that block is not empty once an entry was seen.
\<close>

definition blocks_inv :: "STFImemConfig \<Rightarrow> print_locals \<Rightarrow> bool" where
  "blocks_inv config a \<longleftrightarrow>
     sorted_wrt (\<lambda>x y. \<not> key_less (fst y) (fst x)) (sorted_map a) \<and>
     (\<forall>kb \<in> set (sorted_map a). block_key_ok kb) \<and>
     block_count a = block_sum (current_block a) \<and>
     (sort_output config \<and> \<not> first a \<longrightarrow> current_block a \<noteq> [])"

text \<open>
  Reading the address-ordered report back: the item lines that follow a "MAP n" header,
  up to the next header, are the entries emitted for one table.
\<close>

fun is_header :: "report_line \<Rightarrow> bool" where
  "is_header (MapHeader n) = True"
| "is_header GapMarker = False"
| "is_header (ItemLine a d) = False"

fun table_items :: "report_line list \<Rightarrow> (u64 \<times> IMemData) list" where
  "table_items [] = []"
| "table_items (MapHeader n # ls) = []"
| "table_items (GapMarker # ls) = table_items ls"
| "table_items (ItemLine a d # ls) = (a, d) # table_items ls"

fun report_tables :: "report_line list \<Rightarrow> (u64 \<times> IMemData) list list" where
  "report_tables [] = []"
| "report_tables (MapHeader n # ls) = table_items ls # report_tables ls"
| "report_tables (GapMarker # ls) = report_tables ls"
| "report_tables (ItemLine a d # ls) = report_tables ls"

text \<open>The counts \<^verbatim>\<open>print\<close> has put into blocks so far: the closed blocks and the current one.\<close>

definition blocks_total :: "print_locals \<Rightarrow> u64" where
  "blocks_total a =
     sum_list (map (\<lambda>b. block_sum (snd b)) (sorted_map a)) + block_sum (current_block a)"

subsection \<open>Numbers in positional notation\<close>

text \<open>
  The number that a string of digits denotes in a base, and the strings that are one such
  number fitting 64 bits: not empty, digits of the base only.
\<close>

fun number_value :: "nat \<Rightarrow> string \<Rightarrow> nat" where
  "number_value base [] = 0"
| "number_value base (c # cs) = digit_val c * base ^ length cs + number_value base cs"

definition numeral_string :: "nat \<Rightarrow> string \<Rightarrow> bool" where
  "numeral_string base s \<longleftrightarrow> s \<noteq> [] \<and> list_all (is_digit base) s \<and> number_value base s < 2 ^ 64"

section \<open>The local-history ring buffers\<close>

lemma ring_push:
  assumes "i < length xs"
  shows "rotate (if i + 1 = length xs then 0 else i + 1) (xs[i := v]) = tl (rotate i xs) @ [v]"
proof -
  have r: "rotate i xs = drop i xs @ take i xs" using assms by (simp add: rotate_drop_take)
  have d: "drop i xs = xs ! i # drop (Suc i) xs" using assms by (simp add: Cons_nth_drop_Suc)
  show ?thesis
  proof (cases "i + 1 = length xs")
    case True
    then show ?thesis using assms r d by (simp add: upd_conv_take_nth_drop)
  next
    case False
    then have "i + 1 < length xs" using assms by simp
    then show ?thesis using assms r d by (simp add: rotate_drop_take upd_conv_take_nth_drop)
  qed
qed

lemma lhist_wf_nextStride: "lhist_wf d \<Longrightarrow> lhist_wf (nextStride a d)"
  by (simp add: lhist_wf_def nextStride_def MAX_LHIST_def)

lemma lhist_wf_nextBranchHistory: "lhist_wf d \<Longrightarrow> lhist_wf (nextBranchHistory b d)"
  by (auto simp add: lhist_wf_def nextBranchHistory_def MAX_LHIST_def)

lemma lhist_wf_init: "lhist_wf (IMemData_init i16 opc p w b t m)"
  by (simp add: lhist_wf_def IMemData_init_def nextBranchHistory_def MAX_LHIST_def Let_def)

lemma lhist_wf_push_strides: "lhist_wf d \<Longrightarrow> lhist_wf (push_strides d as)"
  unfolding push_strides_def
  by (induction as arbitrary: d) (simp_all add: lhist_wf_nextStride)

lemma lhist_wf_push_branches: "lhist_wf d \<Longrightarrow> lhist_wf (push_branches d bs)"
  unfolding push_branches_def
  by (induction bs arbitrary: d) (simp_all add: lhist_wf_nextBranchHistory)

lemma nextStride_ring:
  assumes "lhist_wf d"
  shows "rotate (recent_strides_idx (nextStride a d)) (recent_strides (nextStride a d)) =
         tl (rotate (recent_strides_idx d) (recent_strides d)) @ [a - last_address d]"
proof -
  have i: "recent_strides_idx d < length (recent_strides d)"
    using assms by (simp add: lhist_wf_def)
  have "(recent_strides_idx d = MAX_LHIST - 1) = (recent_strides_idx d + 1 = length (recent_strides d))"
    using assms by (auto simp add: lhist_wf_def MAX_LHIST_def)
  then show ?thesis using ring_push [OF i, of "a - last_address d"]
    by (simp add: nextStride_def)
qed

lemma nextBranchHistory_ring:
  assumes "lhist_wf d"
  shows "rotate (branch_lhr_idx (nextBranchHistory b d)) (branch_lhr (nextBranchHistory b d)) =
         tl (rotate (branch_lhr_idx d) (branch_lhr d)) @ [b]"
proof -
  have i: "branch_lhr_idx d < length (branch_lhr d)"
    using assms by (simp add: lhist_wf_def)
  have "(branch_lhr_idx d + 1 = MAX_LHIST) = (branch_lhr_idx d + 1 = length (branch_lhr d))"
    using assms by (auto simp add: lhist_wf_def MAX_LHIST_def)
  then show ?thesis using ring_push [OF i, of b]
    by (simp add: nextBranchHistory_def)
qed

lemma tl_drop_snoc: "k < length xs \<Longrightarrow> tl (drop k xs) @ [v] = drop (Suc k) (xs @ [v])"
  by (simp add: drop_Suc tl_drop)

lemma last_address_nextStride [simp]: "last_address (nextStride a d) = a"
  by (simp add: nextStride_def)

lemma push_strides_ring:
  assumes "lhist_wf d"
  shows "rotate (recent_strides_idx (push_strides d as)) (recent_strides (push_strides d as)) =
         drop (length as) (rotate (recent_strides_idx d) (recent_strides d) @ strides_of (last_address d) as)"
  using assms
proof (induction as arbitrary: d)
  case Nil
  then show ?case by (simp add: push_strides_def)
next
  case (Cons a as)
  have wf: "lhist_wf (nextStride a d)" using Cons.prems by (rule lhist_wf_nextStride)
  have ne: "0 < length (rotate (recent_strides_idx d) (recent_strides d))"
    using Cons.prems by (simp add: lhist_wf_def MAX_LHIST_def)
  have "push_strides d (a # as) = push_strides (nextStride a d) as"
    by (simp add: push_strides_def)
  then show ?case
    using Cons.IH [OF wf] nextStride_ring [OF Cons.prems, of a] ne
    by (cases "rotate (recent_strides_idx d) (recent_strides d)") simp_all
qed

lemma push_branches_ring:
  assumes "lhist_wf d"
  shows "rotate (branch_lhr_idx (push_branches d bs)) (branch_lhr (push_branches d bs)) =
         drop (length bs) (rotate (branch_lhr_idx d) (branch_lhr d) @ bs)"
  using assms
proof (induction bs arbitrary: d)
  case Nil
  then show ?case by (simp add: push_branches_def)
next
  case (Cons b bs)
  have wf: "lhist_wf (nextBranchHistory b d)" using Cons.prems by (rule lhist_wf_nextBranchHistory)
  have ne: "0 < length (rotate (branch_lhr_idx d) (branch_lhr d))"
    using Cons.prems by (simp add: lhist_wf_def MAX_LHIST_def)
  have "push_branches d (b # bs) = push_branches (nextBranchHistory b d) bs"
    by (simp add: push_branches_def)
  then show ?case
    using Cons.IH [OF wf] nextBranchHistory_ring [OF Cons.prems, of b] ne
    by (cases "rotate (branch_lhr_idx d) (branch_lhr d)") simp_all
qed

lemma strides_idx_push: "lhist_wf d \<Longrightarrow>
  recent_strides_idx (push_strides d as) = (recent_strides_idx d + length as) mod MAX_LHIST"
proof (induction as arbitrary: d)
  case Nil
  then show ?case by (simp add: push_strides_def lhist_wf_def)
next
  case (Cons a as)
  have wf: "lhist_wf (nextStride a d)" using Cons.prems by (rule lhist_wf_nextStride)
  have "recent_strides_idx (nextStride a d) = (recent_strides_idx d + 1) mod MAX_LHIST"
    using Cons.prems by (auto simp add: nextStride_def lhist_wf_def MAX_LHIST_def)
  moreover have "push_strides d (a # as) = push_strides (nextStride a d) as"
    by (simp add: push_strides_def)
  ultimately show ?case using Cons.IH [OF wf] by (simp add: mod_simps)
qed

lemma branch_idx_push: "lhist_wf d \<Longrightarrow>
  branch_lhr_idx (push_branches d bs) = (branch_lhr_idx d + length bs) mod MAX_LHIST"
proof (induction bs arbitrary: d)
  case Nil
  then show ?case by (simp add: push_branches_def lhist_wf_def)
next
  case (Cons b bs)
  have wf: "lhist_wf (nextBranchHistory b d)" using Cons.prems by (rule lhist_wf_nextBranchHistory)
  have "branch_lhr_idx (nextBranchHistory b d) = (branch_lhr_idx d + 1) mod MAX_LHIST"
    using Cons.prems by (auto simp add: nextBranchHistory_def lhist_wf_def MAX_LHIST_def)
  moreover have "push_branches d (b # bs) = push_branches (nextBranchHistory b d) bs"
    by (simp add: push_branches_def)
  ultimately show ?case using Cons.IH [OF wf] by (simp add: mod_simps)
qed

lemma length_strides_of [simp]: "length (strides_of l as) = length as"
  by (induction as arbitrary: l) simp_all


lemma mod_plus_50: "(x + (n + 50)) mod 50 = (x + n) mod (50::nat)"
  by (metis add.assoc mod_add_self2)

text \<open>
  Claim C7. The stride buffer and the branch-history bitset of an entry hold exactly 50
  slots, whatever is pushed. A push writes the slot under the cursor, and the cursor is
  back at the same slot after 50 further pushes, so push \<open>k + 50\<close> overwrites what push
  \<open>k\<close> wrote. Once at least 50 values were pushed, the buffer read circularly from the
  cursor is exactly the last 50 values pushed, oldest first.
\<close>

theorem lhist_ring_capacity:
  assumes "lhist_wf d"
  shows "length (recent_strides (push_strides d as)) = 50 \<and>
         length (branch_lhr (push_branches d bs)) = 50 \<and>
         (length as' = 50 \<longrightarrow>
            recent_strides_idx (push_strides d (as @ as')) = recent_strides_idx (push_strides d as)) \<and>
         (length bs' = 50 \<longrightarrow>
            branch_lhr_idx (push_branches d (bs @ bs')) = branch_lhr_idx (push_branches d bs)) \<and>
         (50 \<le> length as \<longrightarrow>
            rotate (recent_strides_idx (push_strides d as)) (recent_strides (push_strides d as)) =
            drop (length as - 50) (strides_of (last_address d) as)) \<and>
         (50 \<le> length bs \<longrightarrow>
            rotate (branch_lhr_idx (push_branches d bs)) (branch_lhr (push_branches d bs)) =
            drop (length bs - 50) bs)"
proof -
  have l1: "length (recent_strides (push_strides d as)) = 50"
    using lhist_wf_push_strides [OF assms, of as] by (simp add: lhist_wf_def MAX_LHIST_def)
  have l2: "length (branch_lhr (push_branches d bs)) = 50"
    using lhist_wf_push_branches [OF assms, of bs] by (simp add: lhist_wf_def MAX_LHIST_def)
  have i1: "length as' = 50 \<Longrightarrow>
      recent_strides_idx (push_strides d (as @ as')) = recent_strides_idx (push_strides d as)"
    by (simp add: strides_idx_push [OF assms] MAX_LHIST_def mod_plus_50)
  have i2: "length bs' = 50 \<Longrightarrow>
      branch_lhr_idx (push_branches d (bs @ bs')) = branch_lhr_idx (push_branches d bs)"
    by (simp add: branch_idx_push [OF assms] MAX_LHIST_def mod_plus_50)
  have n: "length (rotate (recent_strides_idx d) (recent_strides d)) = 50"
      "length (rotate (branch_lhr_idx d) (branch_lhr d)) = 50"
    using assms by (simp_all add: lhist_wf_def MAX_LHIST_def)
  have r1: "50 \<le> length as \<Longrightarrow>
      rotate (recent_strides_idx (push_strides d as)) (recent_strides (push_strides d as)) =
      drop (length as - 50) (strides_of (last_address d) as)"
    using push_strides_ring [OF assms, of as] n by simp
  have r2: "50 \<le> length bs \<Longrightarrow>
      rotate (branch_lhr_idx (push_branches d bs)) (branch_lhr (push_branches d bs)) =
      drop (length bs - 50) bs"
    using push_branches_ring [OF assms, of bs] n by simp
  show ?thesis using l1 l2 i1 i2 r1 r2 by blast
qed

lemma lhist_demo_wf: "lhist_wf lhist_demo_entry"
  unfolding lhist_demo_entry_def by (rule lhist_wf_init)

lemma lhist_demo_length: "length lhist_demo_addrs = 53" "length lhist_demo_bits = 53"
  unfolding lhist_demo_addrs_def lhist_demo_bits_def by simp_all

lemma lhist_demo_last: "last_address lhist_demo_entry = 0x1000"
  by (simp add: lhist_demo_entry_def IMemData_init_def)

lemma lhist_demo_strides:
  "strides_of 0x1000 lhist_demo_addrs =
     [10, 17, 24, 31, 38, 45, 52, 59, 66, 73, 80, 87, 94, 101, 108, 115, 122, 129, 136, 143,
      150, 157, 164, 171, 178, 185, 192, 199, 206, 213, 220, 227, 234, 241, 248, 255, 262,
      269, 276, 283, 290, 297, 304, 311, 318, 325, 332, 339, 346, 353, 360, 367, 374]"
  unfolding lhist_demo_addrs_def by simp

lemma lhist_demo_distinct:
  "distinct ([10, 17, 24, 31, 38, 45, 52, 59, 66, 73, 80, 87, 94, 101, 108, 115, 122, 129,
            136, 143, 150, 157, 164, 171, 178, 185, 192, 199, 206, 213, 220, 227, 234, 241,
            248, 255, 262, 269, 276, 283, 290, 297, 304, 311, 318, 325, 332, 339, 346, 353,
            360, 367, 374] :: u64 list)"
  by simp

text \<open>
  The instance of the claim: 53 distinct strides pushed into a fresh entry leave the last
  50 of them in circular order from the cursor.
\<close>

theorem lhist_ring_capacity_witness:
  "lhist_wf lhist_demo_entry \<and>
   length lhist_demo_addrs = 53 \<and>
   distinct (strides_of (last_address lhist_demo_entry) lhist_demo_addrs) \<and>
   length (recent_strides (push_strides lhist_demo_entry lhist_demo_addrs)) = 50 \<and>
   length (branch_lhr (push_branches lhist_demo_entry lhist_demo_bits)) = 50 \<and>
   rotate (recent_strides_idx (push_strides lhist_demo_entry lhist_demo_addrs))
     (recent_strides (push_strides lhist_demo_entry lhist_demo_addrs)) =
     [31, 38, 45, 52, 59, 66, 73, 80, 87, 94, 101, 108, 115, 122, 129, 136, 143, 150, 157,
      164, 171, 178, 185, 192, 199, 206, 213, 220, 227, 234, 241, 248, 255, 262, 269, 276,
      283, 290, 297, 304, 311, 318, 325, 332, 339, 346, 353, 360, 367, 374] \<and>
   rotate (branch_lhr_idx (push_branches lhist_demo_entry lhist_demo_bits))
     (branch_lhr (push_branches lhist_demo_entry lhist_demo_bits)) = drop 3 lhist_demo_bits"
proof -
  note c = lhist_ring_capacity [OF lhist_demo_wf, of lhist_demo_addrs lhist_demo_bits]
  have d: "distinct (strides_of (last_address lhist_demo_entry) lhist_demo_addrs)"
    unfolding lhist_demo_last lhist_demo_strides by (rule lhist_demo_distinct)
  have s: "rotate (recent_strides_idx (push_strides lhist_demo_entry lhist_demo_addrs))
             (recent_strides (push_strides lhist_demo_entry lhist_demo_addrs)) =
           drop 3 (strides_of 0x1000 lhist_demo_addrs)"
    using c by (simp add: lhist_demo_length lhist_demo_last)
  have b: "rotate (branch_lhr_idx (push_branches lhist_demo_entry lhist_demo_bits))
             (branch_lhr (push_branches lhist_demo_entry lhist_demo_bits)) =
           drop 3 lhist_demo_bits"
    using c by (simp add: lhist_demo_length)
  have s': "drop 3 (strides_of 0x1000 lhist_demo_addrs) =
     [31, 38, 45, 52, 59, 66, 73, 80, 87, 94, 101, 108, 115, 122, 129, 136, 143, 150, 157,
      164, 171, 178, 185, 192, 199, 206, 213, 220, 227, 234, 241, 248, 255, 262, 269, 276,
      283, 290, 297, 304, 311, 318, 325, 332, 339, 346, 353, 360, 367, 374]"
    unfolding lhist_demo_strides by simp
  from c have l: "length (recent_strides (push_strides lhist_demo_entry lhist_demo_addrs)) = 50"
    "length (branch_lhr (push_branches lhist_demo_entry lhist_demo_bits)) = 50"
    by blast+
  show ?thesis
    using lhist_demo_wf lhist_demo_length(1) d l s [unfolded s'] b by blast
qed

section \<open>Lookup, insertion and assignment in a table\<close>

lemma find_assign:
  "IMemMap_find (IMemMap_assign k v m) k' =
     (if k' = k \<and> IMemMap_find m k \<noteq> None then Some v else IMemMap_find m k')"
  by (induction m) (auto split: if_splits)

lemma keys_assign [simp]: "map fst (IMemMap_assign k v m) = map fst m"
  by (induction m) auto

lemma find_None_iff: "IMemMap_find m k = None \<longleftrightarrow> k \<notin> fst ` set m"
  by (induction m) (force split: if_splits)+

lemma find_Some_mem: "IMemMap_find m k = Some d \<Longrightarrow> (k, d) \<in> set m"
  by (induction m) (auto split: if_splits)

lemma mem_find_Some: "sorted_wrt (<) (map fst m) \<Longrightarrow> (k, d) \<in> set m \<Longrightarrow> IMemMap_find m k = Some d"
  by (induction m) (force split: if_splits)+

lemma keys_insert:
  "fst ` set (IMemMap_insert kv m) = insert (fst kv) (fst ` set m)"
proof (induction m)
  case Nil
  then show ?case by simp
next
  case (Cons a m)
  then show ?case by (cases a) (simp add: insert_commute insert_absorb)
qed

lemma sorted_insert:
  "sorted_wrt (<) (map fst m) \<Longrightarrow> sorted_wrt (<) (map fst (IMemMap_insert kv m))"
proof (induction m)
  case Nil
  then show ?case by simp
next
  case (Cons a m)
  obtain k d where a: "a = (k, d)" by (cases a)
  have m: "\<forall>x\<in>set m. k < fst x" "sorted_wrt (<) (map fst m)"
    using Cons.prems a by auto
  show ?case
  proof (cases "fst kv < k")
    case True
    then have "\<forall>x\<in>set m. fst kv < fst x" using m(1) by (auto intro: less_trans)
    then show ?thesis using True a m by auto
  next
    case False
    show ?thesis
    proof (cases "fst kv = k")
      case True
      then show ?thesis using a Cons.prems by simp
    next
      case ne: False
      then have "k < fst kv" using False by auto
      moreover have "\<forall>x\<in>fst ` set (IMemMap_insert kv m). k < x"
        unfolding keys_insert using m(1) calculation by auto
      ultimately show ?thesis using False ne a Cons.IH [OF m(2)] by auto
    qed
  qed
qed

lemma find_insert:
  assumes "sorted_wrt (<) (map fst m)"
  shows "IMemMap_find (IMemMap_insert (k, v) m) k' =
     (if k' = k \<and> IMemMap_find m k = None then Some v else IMemMap_find m k')"
  using assms
proof (induction m)
  case Nil
  then show ?case by auto
next
  case (Cons a m)
  obtain ka d where a: "a = (ka, d)" by (cases a)
  have m: "\<forall>x\<in>set m. ka < fst x" "sorted_wrt (<) (map fst m)"
    using Cons.prems a by auto
  have "k < ka \<Longrightarrow> IMemMap_find m k = None"
    using m(1) unfolding find_None_iff by force
  then show ?case using a Cons.IH [OF m(2)] by auto
qed

lemma table_sum_assign:
  "IMemMap_find m k = Some d \<Longrightarrow>
   table_sum g (IMemMap_assign k v m) + g d = table_sum g m + g v"
  by (induction m) (auto simp: table_sum_def split: if_splits)

lemma table_sum_insert:
  "IMemMap_find m (fst kv) = None \<Longrightarrow>
   table_sum g (IMemMap_insert kv m) = table_sum g m + g (snd kv)"
  by (induction m) (auto simp: table_sum_def split: if_splits)

lemma sum_list_update:
  fixes h :: "'a \<Rightarrow> u64"
  shows "i < length xs \<Longrightarrow> sum_list (map h (xs[i := y])) + h (xs ! i) = sum_list (map h xs) + h y"
  by (induction xs arbitrary: i) (auto simp: nth_Cons split: nat.splits)

section \<open>Counter updates, sums over the tables and the search of the Java variant\<close>

lemma count_found_fst [simp]:
  "imem_mapvec (fst (count_found c w sd)) = imem_mapvec (fst sd)"
  "itv (fst (count_found c w sd)) = itv (fst sd)"
  "cerr (fst (count_found c w sd)) = cerr (fst sd)"
  "inst_count (fst (count_found c w sd)) = inst_count (fst sd)"
  by (simp_all add: count_found_def incCount_vec_def incWarmup_vec_def incRunLength_vec_def Let_def)

lemma count_found_snd:
  "snd (count_found c w (st, d)) =
     (if w then d\<lparr>warmup := warmup d + 1, count := count d + 1\<rparr>
      else if inst_count st < runlength_count c
           then d\<lparr>runlength := runlength d + 1, count := count d + 1\<rparr>
           else d\<lparr>count := count d + 1\<rparr>)"
  by (simp add: count_found_def incCount_vec_def incWarmup_vec_def incRunLength_vec_def Let_def
      incCount_def incWarmup_def incRunLength_def)

lemma word_swap:
  fixes a b t t' x y :: u64
  assumes "a + t = b + t'" "t' + x = t + y"
  shows "a + x = b + y"
proof -
  have 1: "a = b + t' - t" using assms(1) by (simp add: eq_diff_eq)
  have 2: "t' = t + y - x" using assms(2) by (simp add: eq_diff_eq)
  show ?thesis unfolding 1 2 by simp
qed

lemma vec_sum_store:
  assumes "i < length (imem_mapvec st)" "IMemMap_find (imem_mapvec st ! i) k = Some d"
    "imem_mapvec st1 = imem_mapvec st"
  shows "vec_sum g (store_entry i k (st1, d')) + g d = vec_sum g st + g d'"
proof -
  let ?ts = "imem_mapvec st"
  have 1: "vec_sum g (store_entry i k (st1, d')) + table_sum g (?ts ! i) =
        vec_sum g st + table_sum g (IMemMap_assign k d' (?ts ! i))"
    using assms(1,3) sum_list_update [of i ?ts "table_sum g"]
    by (simp add: vec_sum_def store_entry_def)
  have 2: "table_sum g (IMemMap_assign k d' (?ts ! i)) + g d = table_sum g (?ts ! i) + g d'"
    using assms(2) by (rule table_sum_assign)
  show ?thesis using 1 2 by (rule word_swap)
qed

lemma vec_sum_insert:
  assumes "i < length (imem_mapvec st)" "IMemMap_find (imem_mapvec st ! i) (fst kv) = None"
  shows "vec_sum g (insert_entry i kv st) = vec_sum g st + g (snd kv)"
proof -
  let ?ts = "imem_mapvec st"
  have "vec_sum g (insert_entry i kv st) + table_sum g (?ts ! i) =
        vec_sum g st + table_sum g (IMemMap_insert kv (?ts ! i))"
    using assms(1) sum_list_update [of i ?ts "table_sum g"]
    by (simp add: vec_sum_def insert_entry_def)
  then show ?thesis
    using table_sum_insert [OF assms(2), of g] by (simp add: add.assoc add.left_commute)
qed

lemma java_search_step:
  assumes "Suc i \<le> j" "j < Suc i + length ms"
    "\<forall>l < j - Suc i. P (ms ! l)" "P m"
  shows "\<forall>l < j - i. P ((m # ms) ! l)"
proof (intro allI impI)
  fix l assume l: "l < j - i"
  show "P ((m # ms) ! l)"
  proof (cases l)
    case 0
    then show ?thesis using assms(4) by simp
  next
    case (Suc l')
    then have "l' < j - Suc i" using l by simp
    then show ?thesis using assms(3) Suc by simp
  qed
qed

lemma java_search_found:
  "java_search key opc ms i itt = (Some (j, d), itt') \<Longrightarrow>
   i \<le> j \<and> j < i + length ms \<and> IMemMap_find (ms ! (j - i)) key = Some d \<and> opcodeMatch d opc \<and>
   (\<forall>l < j - i. \<forall>d'. IMemMap_find (ms ! l) key = Some d' \<longrightarrow> \<not> opcodeMatch d' opc)"
proof (induction ms arbitrary: i itt)
  case Nil
  then show ?case by simp
next
  case (Cons m ms)
  let ?P = "\<lambda>m. \<forall>d'. IMemMap_find m key = Some d' \<longrightarrow> \<not> opcodeMatch d' opc"
  have step: "i \<le> j \<and> j < i + length (m # ms) \<and> IMemMap_find ((m # ms) ! (j - i)) key = Some d \<and>
      opcodeMatch d opc \<and> (\<forall>l < j - i. ?P ((m # ms) ! l))"
    if r: "java_search key opc ms (Suc i) itt0 = (Some (j, d), itt')" and m: "?P m" for itt0
  proof -
    from Cons.IH [OF r] have ih: "Suc i \<le> j" "j < Suc i + length ms"
      "IMemMap_find (ms ! (j - Suc i)) key = Some d" "opcodeMatch d opc"
      "\<forall>l < j - Suc i. ?P (ms ! l)" by simp_all
    have e: "j - i = Suc (j - Suc i)" using ih(1) by simp
    have "\<forall>l < j - i. ?P ((m # ms) ! l)"
      using ih(1,2,5) m by (rule java_search_step)
    then show ?thesis using ih e by simp
  qed
  show ?case
  proof (cases "IMemMap_find m key")
    case None
    with Cons.prems have "java_search key opc ms (Suc i) (Some i) = (Some (j, d), itt')" by simp
    then show ?thesis using None by (intro step) simp_all
  next
    case (Some d0)
    show ?thesis
    proof (cases "opcodeMatch d0 opc")
      case True
      with Some Cons.prems show ?thesis by simp
    next
      case False
      with Some Cons.prems have "java_search key opc ms (Suc i) itt = (Some (j, d), itt')" by simp
      then show ?thesis using Some False by (intro step) simp_all
    qed
  qed
qed


lemma java_search_nomatch:
  "java_search key opc ms i itt = (None, itt') \<Longrightarrow>
   \<forall>l < length ms. \<forall>d. IMemMap_find (ms ! l) key = Some d \<longrightarrow> \<not> opcodeMatch d opc"
proof (induction ms arbitrary: i itt)
  case Nil
  then show ?case by simp
next
  case (Cons m ms)
  show ?case
  proof (cases "IMemMap_find m key")
    case None
    with Cons.prems have "java_search key opc ms (i + 1) (Some i) = (None, itt')" by simp
    from Cons.IH [OF this] None show ?thesis
      by (simp add: nth_Cons split: nat.splits)
  next
    case (Some d0)
    show ?thesis
    proof (cases "opcodeMatch d0 opc")
      case True
      with Some Cons.prems show ?thesis by simp
    next
      case False
      with Some Cons.prems have "java_search key opc ms (i + 1) itt = (None, itt')" by simp
      from Cons.IH [OF this] Some False show ?thesis
        by (simp add: nth_Cons split: nat.splits)
    qed
  qed
qed

lemma java_search_itt:
  "java_search key opc ms i itt = (None, itt') \<Longrightarrow>
   (itt' = itt \<and> (\<forall>l < length ms. IMemMap_find (ms ! l) key \<noteq> None)) \<or>
   (\<exists>t. itt' = Some t \<and> i \<le> t \<and> t < i + length ms \<and> IMemMap_find (ms ! (t - i)) key = None \<and>
        (\<forall>l. t - i < l \<and> l < length ms \<longrightarrow> IMemMap_find (ms ! l) key \<noteq> None))"
proof (induction ms arbitrary: i itt)
  case Nil
  then show ?case by simp
next
  case (Cons m ms)
  let ?Q = "\<lambda>m. IMemMap_find m key \<noteq> None"
  have later: "\<exists>t. itt' = Some t \<and> i \<le> t \<and> t < i + length (m # ms) \<and>
         IMemMap_find ((m # ms) ! (t - i)) key = None \<and>
         (\<forall>l. t - i < l \<and> l < length (m # ms) \<longrightarrow> ?Q ((m # ms) ! l))"
    if t: "itt' = Some t" "Suc i \<le> t" "t < Suc i + length ms"
      "IMemMap_find (ms ! (t - Suc i)) key = None"
      "\<forall>l. t - Suc i < l \<and> l < length ms \<longrightarrow> ?Q (ms ! l)" for t
  proof -
    have e: "t - i = Suc (t - Suc i)" using t(2) by simp
    have "\<forall>l. t - i < l \<and> l < length (m # ms) \<longrightarrow> ?Q ((m # ms) ! l)"
    proof (intro allI impI)
      fix l assume l: "t - i < l \<and> l < length (m # ms)"
      then obtain l' where l': "l = Suc l'" by (cases l) auto
      with l e have "t - Suc i < l' \<and> l' < length ms" by simp
      with t(5) l' show "?Q ((m # ms) ! l)" by simp
    qed
    then show ?thesis using t e by simp
  qed
  show ?case
  proof (cases "IMemMap_find m key")
    case None
    with Cons.prems have r: "java_search key opc ms (Suc i) (Some i) = (None, itt')" by simp
    from Cons.IH [OF r] show ?thesis
    proof
      assume a: "itt' = Some i \<and> (\<forall>l < length ms. ?Q (ms ! l))"
      have "\<forall>l. i - i < l \<and> l < length (m # ms) \<longrightarrow> ?Q ((m # ms) ! l)"
      proof (intro allI impI)
        fix l assume l: "i - i < l \<and> l < length (m # ms)"
        then obtain l' where l': "l = Suc l'" by (cases l) auto
        with l a show "?Q ((m # ms) ! l)" by simp
      qed
      then have "itt' = Some i \<and> i \<le> i \<and> i < i + length (m # ms) \<and>
         IMemMap_find ((m # ms) ! (i - i)) key = None \<and>
         (\<forall>l. i - i < l \<and> l < length (m # ms) \<longrightarrow> ?Q ((m # ms) ! l))"
        using a None by simp
      then show ?thesis by blast
    next
      assume "\<exists>t. itt' = Some t \<and> Suc i \<le> t \<and> t < Suc i + length ms \<and>
        IMemMap_find (ms ! (t - Suc i)) key = None \<and>
        (\<forall>l. t - Suc i < l \<and> l < length ms \<longrightarrow> ?Q (ms ! l))"
      then obtain t where "itt' = Some t" "Suc i \<le> t" "t < Suc i + length ms"
        "IMemMap_find (ms ! (t - Suc i)) key = None"
        "\<forall>l. t - Suc i < l \<and> l < length ms \<longrightarrow> ?Q (ms ! l)" by blast
      then show ?thesis using later by blast
    qed
  next
    case (Some d0)
    have r: "java_search key opc ms (Suc i) itt = (None, itt')"
      using Some Cons.prems by (cases "opcodeMatch d0 opc") simp_all
    from Cons.IH [OF r] show ?thesis
    proof
      assume a: "itt' = itt \<and> (\<forall>l < length ms. ?Q (ms ! l))"
      have "\<forall>l < length (m # ms). ?Q ((m # ms) ! l)"
      proof (intro allI impI)
        fix l assume l: "l < length (m # ms)"
        show "?Q ((m # ms) ! l)" using l a Some by (cases l) simp_all
      qed
      then show ?thesis using a by blast
    next
      assume "\<exists>t. itt' = Some t \<and> Suc i \<le> t \<and> t < Suc i + length ms \<and>
        IMemMap_find (ms ! (t - Suc i)) key = None \<and>
        (\<forall>l. t - Suc i < l \<and> l < length ms \<longrightarrow> ?Q (ms ! l))"
      then obtain t where "itt' = Some t" "Suc i \<le> t" "t < Suc i + length ms"
        "IMemMap_find (ms ! (t - Suc i)) key = None"
        "\<forall>l. t - Suc i < l \<and> l < length ms \<longrightarrow> ?Q (ms ! l)" by blast
      then show ?thesis using later by blast
    qed
  qed
qed

section \<open>Well-formedness is kept by every step\<close>

lemma vec_wf_store:
  assumes "vec_wf st" "imem_mapvec (fst sd) = imem_mapvec st" "itv (fst sd) = itv st"
  shows "vec_wf (store_entry i k sd)"
proof -
  have "\<forall>m \<in> set ((imem_mapvec st)[i := IMemMap_assign k (snd sd) (imem_mapvec st ! i)]).
          sorted_wrt (<) (map fst m)"
  proof
    fix m assume "m \<in> set ((imem_mapvec st)[i := IMemMap_assign k (snd sd) (imem_mapvec st ! i)])"
    then have "m = IMemMap_assign k (snd sd) (imem_mapvec st ! i) \<and> i < length (imem_mapvec st) \<or>
               m \<in> set (imem_mapvec st)"
      by (cases "i < length (imem_mapvec st)") (auto dest: set_update_subset_insert [THEN subsetD] simp: list_update_beyond)
    then show "sorted_wrt (<) (map fst m)" using assms(1) by (auto simp: vec_wf_def)
  qed
  then show ?thesis using assms by (simp add: vec_wf_def store_entry_def)
qed

lemma vec_wf_insert:
  assumes "vec_wf st"
  shows "vec_wf (insert_entry i kv st)"
proof -
  have "\<forall>m \<in> set ((imem_mapvec st)[i := IMemMap_insert kv (imem_mapvec st ! i)]).
          sorted_wrt (<) (map fst m)"
  proof
    fix m assume "m \<in> set ((imem_mapvec st)[i := IMemMap_insert kv (imem_mapvec st ! i)])"
    then have "m = IMemMap_insert kv (imem_mapvec st ! i) \<and> i < length (imem_mapvec st) \<or>
               m \<in> set (imem_mapvec st)"
      by (cases "i < length (imem_mapvec st)") (auto dest: set_update_subset_insert [THEN subsetD] simp: list_update_beyond)
    then show "sorted_wrt (<) (map fst m)" using assms(1) by (auto simp: vec_wf_def sorted_insert)
  qed
  then show ?thesis using assms by (simp add: vec_wf_def insert_entry_def)
qed

lemma vec_wf_cerr [simp]: "vec_wf (st\<lparr>cerr := x\<rparr>) = vec_wf st"
  by (simp add: vec_wf_def)

lemma vec_wf_IMem:
  assumes "vec_wf st"
  shows "vec_wf (IMem_count_impl config inst st)"
proof (cases "IMemMap_find (imem_mapvec st ! itv st) (pc inst)")
  case None
  then show ?thesis
    using assms by (simp add: IMem_count_impl_def Let_def vec_wf_insert)
next
  case (Some d)
  have "vec_wf (store_entry i k (fst (count_found c w (st, d)), d'))" for i k c w d'
    using assms by (rule vec_wf_store) simp_all
  then show ?thesis
    using Some assms by (simp add: IMem_count_impl_def Let_def)
qed

lemma vec_wf_itv: "vec_wf st \<Longrightarrow> i < length (imem_mapvec st) \<Longrightarrow> vec_wf (st\<lparr>itv := i\<rparr>)"
  by (simp add: vec_wf_def)

lemma store_entry_itv: "(store_entry i k (st, d))\<lparr>itv := j\<rparr> = store_entry i k (st\<lparr>itv := j\<rparr>, d)"
  by (simp add: store_entry_def)

lemma vec_wf_other_maps:
  assumes "vec_wf st"
  shows "vec_wf (JavaIMem_other_maps config inst st)"
proof (cases "java_search (pc inst) (inst_opcode inst) (imem_mapvec st) 0 None")
  case (Pair r itt)
  show ?thesis
  proof (cases r)
    case (Some jd)
    obtain j d where jd: "jd = (j, d)" by (cases jd)
    from java_search_found [OF Pair [unfolded Some jd]] have j: "j < length (imem_mapvec st)" by simp
    let ?sd = "count_found config (inst_count st < warmup_count config) (st, d)"
    have "vec_wf (store_entry j (pc inst) ?sd)"
      using assms by (rule vec_wf_store) simp_all
    moreover have "length (imem_mapvec (store_entry j (pc inst) ?sd)) = length (imem_mapvec st)"
      by (simp add: store_entry_def)
    ultimately have "vec_wf ((store_entry j (pc inst) ?sd)\<lparr>itv := j\<rparr>)"
      using j by (intro vec_wf_itv) simp_all
    then show ?thesis
      using Pair Some jd by (simp add: JavaIMem_other_maps_def Let_def)
  next
    case None
    show ?thesis
    proof (cases itt)
      case n: None
      have "vec_wf (st\<lparr>imem_mapvec := [] # imem_mapvec st, itv := 0\<rparr>)"
        using assms by (simp add: vec_wf_def)
      then show ?thesis
        using Pair None n by (simp add: JavaIMem_other_maps_def Let_def vec_wf_insert)
    next
      case (Some t)
      from java_search_itt [OF Pair [unfolded None]] Some
      have t: "t < length (imem_mapvec st)" by auto
      then show ?thesis
        using Pair None Some assms
        by (simp add: JavaIMem_other_maps_def Let_def vec_wf_insert vec_wf_itv)
    qed
  qed
qed

lemma vec_wf_Java:
  assumes "vec_wf st"
  shows "vec_wf (JavaIMem_count_impl config inst st)"
proof -
  have "vec_wf (store_entry i k (count_found c w (st, d)))" for i k c w d
    using assms by (rule vec_wf_store) simp_all
  then show ?thesis
    using assms
    by (simp add: JavaIMem_count_impl_def Let_def vec_wf_other_maps split: option.splits)
qed

lemma vec_wf_init: "vec_wf IMemMapVec_init"
  by (simp add: vec_wf_def IMemMapVec_init_def)

section \<open>Warm-up and run-length counters\<close>

lemma init_counters [simp]:
  "warmup (IMemData_init i16 opc p w b t m) = (if w then 1 else 0)"
  "runlength (IMemData_init i16 opc p w b t m) = (if w then 0 else 1)"
  "count (IMemData_init i16 opc p w b t m) = 1"
  "opcode (IMemData_init i16 opc p w b t m) = opc"
  "last_address (IMemData_init i16 opc p w b t m) = m"
  "is_loadstore (IMemData_init i16 opc p w b t m) = (m \<noteq> 0)"
  by (simp_all add: IMemData_init_def nextBranchHistory_def Let_def)

lemma create_fst [simp]:
  "fst (createIMem key inst p w) = key"
  "fst (createIMem_addr key inst p w a) = key"
  "fst (createIMem_branch key inst p w b t) = key"
  by (simp_all add: createIMem_def createIMem_addr_def createIMem_branch_def)

lemma create_counters [simp]:
  "warmup (snd (createIMem key inst p w)) = (if w then 1 else 0)"
  "warmup (snd (createIMem_addr key inst p w a)) = (if w then 1 else 0)"
  "warmup (snd (createIMem_branch key inst p w b t)) = (if w then 1 else 0)"
  "runlength (snd (createIMem key inst p w)) = (if w then 0 else 1)"
  "runlength (snd (createIMem_addr key inst p w a)) = (if w then 0 else 1)"
  "runlength (snd (createIMem_branch key inst p w b t)) = (if w then 0 else 1)"
  "count (snd (createIMem key inst p w)) = 1"
  "count (snd (createIMem_addr key inst p w a)) = 1"
  "count (snd (createIMem_branch key inst p w b t)) = 1"
  by (simp_all add: createIMem_def createIMem_addr_def createIMem_branch_def
      IMemData_plain_def IMemData_mem_def IMemData_branch_def)

lemma history_counters [simp]:
  "warmup (nextStride a d) = warmup d" "runlength (nextStride a d) = runlength d"
  "count (nextStride a d) = count d" "opcode (nextStride a d) = opcode d"
  "warmup (nextBranchHistory b d) = warmup d" "runlength (nextBranchHistory b d) = runlength d"
  "count (nextBranchHistory b d) = count d" "opcode (nextBranchHistory b d) = opcode d"
  by (simp_all add: nextStride_def nextBranchHistory_def)

lemma vec_sum_fields [simp]:
  "vec_sum g (st\<lparr>itv := j\<rparr>) = vec_sum g st"
  "vec_sum g (st\<lparr>cerr := x\<rparr>) = vec_sum g st"
  "vec_sum g (st\<lparr>inst_count := n\<rparr>) = vec_sum g st"
  by (simp_all add: vec_sum_def)

lemma vec_sum_new_table [simp]:
  "vec_sum g (st\<lparr>imem_mapvec := [] # imem_mapvec st\<rparr>) = vec_sum g st"
  by (simp add: vec_sum_def table_sum_def)

lemma window_step_insert:
  assumes "vec_sum warmup st1 = vec_sum warmup st" "vec_sum runlength st1 = vec_sum runlength st"
    "i < length (imem_mapvec st1)" "IMemMap_find (imem_mapvec st1 ! i) (fst kv) = None"
    "warmup (snd kv) = (if w then 1 else 0)" "runlength (snd kv) = (if w then 0 else 1)"
  shows "window_step st (insert_entry i kv st1)"
  using assms vec_sum_insert [OF assms(3,4)]
  by (simp add: window_step_def)

lemma window_step_store:
  assumes "i < length (imem_mapvec st)" "IMemMap_find (imem_mapvec st ! i) k = Some d"
    "imem_mapvec st1 = imem_mapvec st"
    "(warmup d' = warmup d \<and> runlength d' = runlength d) \<or>
     (warmup d' = warmup d + 1 \<and> runlength d' = runlength d) \<or>
     (warmup d' = warmup d \<and> runlength d' = runlength d + 1)"
  shows "window_step st (store_entry i k (st1, d'))"
proof -
  note s = vec_sum_store [OF assms(1,2,3), of _ d']
  from assms(4) show ?thesis
  proof (elim disjE conjE)
    assume "warmup d' = warmup d" "runlength d' = runlength d"
    then show ?thesis using s [of warmup] s [of runlength] by (simp add: window_step_def)
  next
    assume "warmup d' = warmup d + 1" "runlength d' = runlength d"
    then show ?thesis using s [of warmup] s [of runlength]
      by (simp add: window_step_def add.assoc [symmetric])
  next
    assume "warmup d' = warmup d" "runlength d' = runlength d + 1"
    then show ?thesis using s [of warmup] s [of runlength]
      by (simp add: window_step_def add.assoc [symmetric])
  qed
qed

lemma count_found_window:
  "(warmup (snd (count_found c w (st, d))) = warmup d \<and>
    runlength (snd (count_found c w (st, d))) = runlength d) \<or>
   (warmup (snd (count_found c w (st, d))) = warmup d + 1 \<and>
    runlength (snd (count_found c w (st, d))) = runlength d) \<or>
   (warmup (snd (count_found c w (st, d))) = warmup d \<and>
    runlength (snd (count_found c w (st, d))) = runlength d + 1)"
  by (simp add: count_found_snd)

lemma window_step_same:
  "imem_mapvec st' = imem_mapvec st \<Longrightarrow> window_step st st'"
  by (simp add: window_step_def vec_sum_def)

lemma window_step_itv: "window_step st st' \<Longrightarrow> window_step st (st'\<lparr>itv := j\<rparr>)"
  by (simp add: window_step_def)

lemma window_step_IMem:
  assumes "vec_wf st"
  shows "window_step st (IMem_count_impl config inst st)"
proof (cases "IMemMap_find (imem_mapvec st ! itv st) (pc inst)")
  case None
  have i: "itv st < length (imem_mapvec st)" using assms by (simp add: vec_wf_def)
  have "window_step st (insert_entry (itv st) kv st)"
    if "fst kv = pc inst" "warmup (snd kv) = (if w then 1 else 0)"
      "runlength (snd kv) = (if w then 0 else 1)" for kv w
    using that None i by (intro window_step_insert [where w = w]) simp_all
  then show ?thesis using None
    by (simp add: IMem_count_impl_def Let_def)
next
  case (Some d)
  have i: "itv st < length (imem_mapvec st)" using assms by (simp add: vec_wf_def)
  let ?sd = "count_found config (inst_count st < warmup_count config) (st, d)"
  have "window_step st (store_entry (itv st) (pc inst) (fst ?sd, d'))"
    if "warmup d' = warmup (snd ?sd)" "runlength d' = runlength (snd ?sd)" for d'
    using i Some count_found_window [of config "inst_count st < warmup_count config" st d] that
    by (intro window_step_store [where d = d]) simp_all
  then show ?thesis using Some
    by (simp add: IMem_count_impl_def Let_def window_step_same)
qed


lemma window_step_other_maps:
  assumes "vec_wf st"
  shows "window_step st (JavaIMem_other_maps config inst st)"
proof (cases "java_search (pc inst) (inst_opcode inst) (imem_mapvec st) 0 None")
  case (Pair r itt)
  have i: "itv st < length (imem_mapvec st)" using assms by (simp add: vec_wf_def)
  let ?w = "inst_count st < warmup_count config"
  let ?kv = "createIMem (pc inst) inst 0 ?w"
  show ?thesis
  proof (cases r)
    case (Some jd)
    obtain j d where jd: "jd = (j, d)" by (cases jd)
    from java_search_found [OF Pair [unfolded Some jd]]
    have j: "j < length (imem_mapvec st)" "IMemMap_find (imem_mapvec st ! j) (pc inst) = Some d"
      by simp_all
    let ?sd = "count_found config ?w (st, d)"
    have "window_step st (store_entry j (pc inst) (fst ?sd, snd ?sd))"
      using j count_found_window [of config ?w st d]
      by (intro window_step_store [where d = d]) simp_all
    then show ?thesis
      using Pair Some jd by (simp add: JavaIMem_other_maps_def Let_def window_step_itv)
  next
    case None
    show ?thesis
    proof (cases itt)
      case n: None
      have "window_step st (insert_entry 0 ?kv (st\<lparr>imem_mapvec := [] # imem_mapvec st, itv := 0\<rparr>))"
        by (intro window_step_insert [where w = ?w]) simp_all
      then show ?thesis
        using Pair None n by (simp add: JavaIMem_other_maps_def Let_def)
    next
      case (Some t)
      from java_search_itt [OF Pair [unfolded None]] Some
      have t: "t < length (imem_mapvec st)" "IMemMap_find (imem_mapvec st ! t) (pc inst) = None"
        by auto
      have 1: "window_step st (insert_entry t ?kv (st\<lparr>itv := t\<rparr>))"
        using t by (intro window_step_insert [where w = ?w]) simp_all
      have 2: "window_step st (insert_entry (itv st) ?kv st)"
        if "IMemMap_find (imem_mapvec st ! itv st) (pc inst) = None"
        using i that by (intro window_step_insert [where w = ?w]) simp_all
      show ?thesis
        using Pair None Some 1 2 by (auto simp add: JavaIMem_other_maps_def Let_def)
    qed
  qed
qed

lemma window_step_Java:
  assumes "vec_wf st"
  shows "window_step st (JavaIMem_count_impl config inst st)"
proof (cases "IMemMap_find (imem_mapvec st ! itv st) (pc inst)")
  case None
  then show ?thesis
    using window_step_other_maps [OF assms] by (simp add: JavaIMem_count_impl_def)
next
  case (Some d)
  have i: "itv st < length (imem_mapvec st)" using assms by (simp add: vec_wf_def)
  let ?sd = "count_found config (inst_count st < warmup_count config) (st, d)"
  have "window_step st (store_entry (itv st) (pc inst) (fst ?sd, snd ?sd))"
    using i Some count_found_window [of config "inst_count st < warmup_count config" st d]
    by (intro window_step_store [where d = d]) simp_all
  then show ?thesis using Some window_step_other_maps [OF assms]
    by (simp add: JavaIMem_count_impl_def Let_def)
qed

section \<open>Entries after a step\<close>

lemma addr_loop_last: "addr_loop a ms = (if ms = [] then a else last ms)"
  by (induction ms arbitrary: a) simp_all

lemma insert_entry_fields [simp]:
  "itv (insert_entry i kv st) = itv st"
  "cerr (insert_entry i kv st) = cerr st"
  "inst_count (insert_entry i kv st) = inst_count st"
  "length (imem_mapvec (insert_entry i kv st)) = length (imem_mapvec st)"
  by (simp_all add: insert_entry_def)

lemma store_entry_fields [simp]:
  "itv (store_entry i k sd) = itv (fst sd)"
  "cerr (store_entry i k sd) = cerr (fst sd)"
  "inst_count (store_entry i k sd) = inst_count (fst sd)"
  "length (imem_mapvec (store_entry i k sd)) = length (imem_mapvec (fst sd))"
  by (simp_all add: store_entry_def)

lemma find_insert_entry:
  assumes "vec_wf st" "i < length (imem_mapvec st)"
  shows "IMemMap_find (imem_mapvec (insert_entry i (k, v) st) ! i) k' =
     (if k' = k \<and> IMemMap_find (imem_mapvec st ! i) k = None then Some v
      else IMemMap_find (imem_mapvec st ! i) k')"
proof -
  have "sorted_wrt (<) (map fst (imem_mapvec st ! i))"
    using assms by (simp add: vec_wf_def)
  then show ?thesis using assms(2) by (simp add: insert_entry_def find_insert)
qed

lemma find_store_entry:
  assumes "i < length (imem_mapvec (fst sd))"
  shows "IMemMap_find (imem_mapvec (store_entry i k sd) ! i) k' =
     (if k' = k \<and> IMemMap_find (imem_mapvec (fst sd) ! i) k \<noteq> None then Some (snd sd)
      else IMemMap_find (imem_mapvec (fst sd) ! i) k')"
  using assms by (simp add: store_entry_def find_assign)

lemmas eval_defs = IMem_count_impl_def JavaIMem_count_impl_def JavaIMem_other_maps_def
  IMemMapVec_init_def demo_config_def plain_inst_def Let_def
  insert_entry_def store_entry_def count_found_def incCount_vec_def incWarmup_vec_def
  incRunLength_vec_def incCount_def incWarmup_def incRunLength_def opcodeMatch_def
  createIMem_def createIMem_addr_def createIMem_branch_def IMemData_plain_def IMemData_mem_def
  IMemData_branch_def IMemData_init_def nextStride_def nextBranchHistory_def

lemma one_entry_state_wf: "vec_wf one_entry_state"
  unfolding one_entry_state_def by (rule vec_wf_IMem [OF vec_wf_init])

lemma one_entry_state_find:
  "IMemMap_find (imem_mapvec one_entry_state ! itv one_entry_state) (pc (plain_inst 0x100 0x33)) =
     Some (snd (createIMem 0x100 (plain_inst 0x100 0x13) 0 False))"
  by (simp add: one_entry_state_def eval_defs)

lemma one_entry_state_opcode:
  "opcode (snd (createIMem 0x100 (plain_inst 0x100 0x13) 0 False)) \<noteq> inst_opcode (plain_inst 0x100 0x33)"
  by (simp add: eval_defs)

lemma Java_mismatch_table_kept:
  assumes "vec_wf st"
    and "IMemMap_find (imem_mapvec st ! itv st) (pc inst) = Some d"
    and "opcode d \<noteq> inst_opcode inst"
  shows "cerr (JavaIMem_other_maps config inst st) = cerr st \<and>
         imem_mapvec (JavaIMem_other_maps config inst st) !
           (itv st + (length (imem_mapvec (JavaIMem_other_maps config inst st)) - length (imem_mapvec st))) =
         imem_mapvec st ! itv st"
proof (cases "java_search (pc inst) (inst_opcode inst) (imem_mapvec st) 0 None")
  case (Pair r itt)
  have i: "itv st < length (imem_mapvec st)" using assms by (simp add: vec_wf_def)
  show ?thesis
  proof (cases r)
    case (Some jd)
    obtain j d' where jd: "jd = (j, d')" by (cases jd)
    from java_search_found [OF Pair [unfolded Some jd]]
    have j: "j < length (imem_mapvec st)" "IMemMap_find (imem_mapvec st ! j) (pc inst) = Some d'"
      "opcodeMatch d' (inst_opcode inst)"
      by simp_all
    have "j \<noteq> itv st" using j assms(2,3) by (auto simp: opcodeMatch_def)
    then show ?thesis
      using Pair Some jd by (simp add: JavaIMem_other_maps_def Let_def store_entry_def)
  next
    case None
    show ?thesis
    proof (cases itt)
      case n: None
      then show ?thesis
        using Pair None by (simp add: JavaIMem_other_maps_def Let_def insert_entry_def)
    next
      case (Some t)
      from java_search_itt [OF Pair [unfolded None]] Some
      have t: "t < length (imem_mapvec st)" "IMemMap_find (imem_mapvec st ! t) (pc inst) = None"
        by auto
      have "t \<noteq> itv st" using t assms(2) by auto
      then show ?thesis
        using Pair None Some assms(2)
        by (simp add: JavaIMem_other_maps_def Let_def insert_entry_def)
    qed
  qed
qed

section \<open>The table search of the Java variant\<close>

lemma java_search_first_match:
  assumes "j < length ts" "IMemMap_find (ts ! j) key = Some d" "opcode d = opc"
    and "\<forall>l < j. \<forall>d'. IMemMap_find (ts ! l) key = Some d' \<longrightarrow> opcode d' \<noteq> opc"
  shows "\<exists>itt. java_search key opc ts 0 None = (Some (j, d), itt)"
proof (cases "java_search key opc ts 0 None")
  case (Pair r itt)
  show ?thesis
  proof (cases r)
    case None
    from java_search_nomatch [OF Pair [unfolded None]] assms(1,2,3)
    show ?thesis by (auto simp: opcodeMatch_def)
  next
    case (Some jd)
    obtain j' d' where jd: "jd = (j', d')" by (cases jd)
    from java_search_found [OF Pair [unfolded Some jd]]
    have f: "j' < length ts" "IMemMap_find (ts ! j') key = Some d'" "opcode d' = opc"
      "\<forall>l < j'. \<forall>d''. IMemMap_find (ts ! l) key = Some d'' \<longrightarrow> opcode d'' \<noteq> opc"
      by (simp_all add: opcodeMatch_def)
    have "\<not> j' < j" using f(2,3) assms(4) by blast
    moreover have "\<not> j < j'" using f(4) assms(2,3) by blast
    ultimately have "j' = j" by simp
    then show ?thesis using Pair Some jd f(2) assms(2) by simp
  qed
qed

lemma java_search_all_differ:
  assumes "\<forall>l < length ts. \<exists>d. IMemMap_find (ts ! l) key = Some d \<and> opcode d \<noteq> opc"
  shows "java_search key opc ts 0 None = (None, None)"
proof (cases "java_search key opc ts 0 None")
  case (Pair r itt)
  show ?thesis
  proof (cases r)
    case None
    from java_search_itt [OF Pair [unfolded None]] assms
    have "itt = None" by force
    then show ?thesis using Pair None by simp
  next
    case (Some jd)
    obtain j' d' where jd: "jd = (j', d')" by (cases jd)
    from java_search_found [OF Pair [unfolded Some jd]]
    have f: "j' < length ts" "IMemMap_find (ts ! j') key = Some d'" "opcode d' = opc"
      by (simp_all add: opcodeMatch_def)
    then show ?thesis using assms by force
  qed
qed

lemma java_search_last_absent:
  assumes "\<forall>l < length ts. \<forall>d. IMemMap_find (ts ! l) key = Some d \<longrightarrow> opcode d \<noteq> opc"
    and "t < length ts" "IMemMap_find (ts ! t) key = None"
    and "\<forall>l. t < l \<and> l < length ts \<longrightarrow> IMemMap_find (ts ! l) key \<noteq> None"
  shows "java_search key opc ts 0 None = (None, Some t)"
proof (cases "java_search key opc ts 0 None")
  case (Pair r itt)
  show ?thesis
  proof (cases r)
    case None
    from java_search_itt [OF Pair [unfolded None]]
    have "(itt = None \<and> (\<forall>l < length ts. IMemMap_find (ts ! l) key \<noteq> None)) \<or>
      (\<exists>t'. itt = Some t' \<and> t' < length ts \<and> IMemMap_find (ts ! t') key = None \<and>
        (\<forall>l. t' < l \<and> l < length ts \<longrightarrow> IMemMap_find (ts ! l) key \<noteq> None))"
      by simp
    then show ?thesis
    proof
      assume "itt = None \<and> (\<forall>l < length ts. IMemMap_find (ts ! l) key \<noteq> None)"
      then show ?thesis using assms(2,3) by blast
    next
      assume "\<exists>t'. itt = Some t' \<and> t' < length ts \<and> IMemMap_find (ts ! t') key = None \<and>
        (\<forall>l. t' < l \<and> l < length ts \<longrightarrow> IMemMap_find (ts ! l) key \<noteq> None)"
      then obtain t' where t': "itt = Some t'" "t' < length ts" "IMemMap_find (ts ! t') key = None"
        "\<forall>l. t' < l \<and> l < length ts \<longrightarrow> IMemMap_find (ts ! l) key \<noteq> None" by blast
      have "\<not> t' < t" using t'(4) assms(2,3) by blast
      moreover have "\<not> t < t'" using t'(2,3) assms(4) by blast
      ultimately have "t' = t" by simp
      then show ?thesis using Pair None t'(1) by simp
    qed
  next
    case (Some jd)
    obtain j' d' where jd: "jd = (j', d')" by (cases jd)
    from java_search_found [OF Pair [unfolded Some jd]]
    have f: "j' < length ts" "IMemMap_find (ts ! j') key = Some d'" "opcode d' = opc"
      by (simp_all add: opcodeMatch_def)
    then show ?thesis using assms(1) by blast
  qed
qed

lemma demo_entry_opcode [simp]: "opcode (demo_entry opc) = opc"
  by (simp add: demo_entry_def IMemData_plain_def)

lemma createIMem_plain [simp]:
  "createIMem a (plain_inst a opc) 0 False = (a, demo_entry opc)"
  by (simp add: createIMem_def demo_entry_def plain_inst_def)

lemma plain_inst_simps [simp]:
  "pc (plain_inst a opc) = a" "inst_opcode (plain_inst a opc) = opc"
  by (simp_all add: plain_inst_def)

lemma demo_config_warmup [simp]: "(n < warmup_count demo_config) = False"
  by (simp add: demo_config_def)

lemma one_entry_state_eq:
  "one_entry_state = IMemMapVec_init\<lparr>imem_mapvec := [[(0x100, demo_entry 0x13)]]\<rparr>"
  by (simp add: one_entry_state_def IMem_count_impl_def Let_def insert_entry_def IMemMapVec_init_def
      createIMem_def demo_entry_def plain_inst_def)

lemma two_table_state_eq:
  "two_table_state =
     IMemMapVec_init\<lparr>imem_mapvec := [[(0x100, demo_entry 0x33)], [(0x100, demo_entry 0x13)]]\<rparr>"
  by (simp add: two_table_state_def one_entry_state_eq JavaIMem_count_impl_def
      JavaIMem_other_maps_def Let_def insert_entry_def IMemMapVec_init_def opcodeMatch_def)

lemma three_entry_state_eq:
  "three_entry_state =
     IMemMapVec_init\<lparr>imem_mapvec :=
       [[(0x100, demo_entry 0x33), (0x200, demo_entry 0x55)], [(0x100, demo_entry 0x13)]]\<rparr>"
  by (simp add: three_entry_state_def two_table_state_eq JavaIMem_count_impl_def
      JavaIMem_other_maps_def Let_def insert_entry_def IMemMapVec_init_def opcodeMatch_def)

lemma demo_states_wf: "vec_wf one_entry_state" "vec_wf two_table_state" "vec_wf three_entry_state"
  by (simp_all add: one_entry_state_eq two_table_state_eq three_entry_state_eq vec_wf_def
      IMemMapVec_init_def)

lemma All_less_2: "(\<forall>l < Suc (Suc 0). P l) \<longleftrightarrow> P 0 \<and> P (Suc 0)"
  by (auto simp: less_Suc_eq)

section \<open>Branch history in the non-Java profiler\<close>

lemma same_branch_state_refl [simp]: "same_branch_state d d"
  by (simp add: same_branch_state_def)

lemma same_branch_state_counters [simp]:
  "same_branch_state d (snd (count_found c w (st, d)))"
  by (simp add: same_branch_state_def count_found_snd)

lemma same_branch_state_nextStride [simp]:
  "same_branch_state d (nextStride a d') = same_branch_state d d'"
  by (simp add: same_branch_state_def nextStride_def)

lemma same_branch_state_never: "same_branch_state d d' \<Longrightarrow> never_branch d \<Longrightarrow> never_branch d'"
  by (simp add: same_branch_state_def never_branch_def)

lemma same_branch_state_push:
  "same_branch_state d d1 \<Longrightarrow> same_branch_state (nextBranchHistory b d) (nextBranchHistory b d1)"
  by (simp add: same_branch_state_def nextBranchHistory_def)

lemma never_branch_created [simp]:
  "never_branch (snd (createIMem key inst p w))"
  "never_branch (snd (createIMem_addr key inst p w a))"
  "never_branch (snd (createIMem_branch key inst p w False t))"
  by (simp_all add: never_branch_def createIMem_def createIMem_addr_def createIMem_branch_def
      IMemData_plain_def IMemData_mem_def IMemData_branch_def IMemData_init_def)

lemma created_branch:
  "\<exists>d0. never_branch d0 \<and>
     same_branch_state (nextBranchHistory True d0) (snd (createIMem_branch key inst p w True True))"
proof -
  let ?d0 = "snd (createIMem key inst p w)"
  have "same_branch_state (nextBranchHistory True ?d0) (snd (createIMem_branch key inst p w True True))"
    by (simp add: same_branch_state_def createIMem_def createIMem_branch_def
      IMemData_plain_def IMemData_branch_def IMemData_init_def nextBranchHistory_def)
  then show ?thesis using never_branch_created(1) by blast
qed

lemma IMem_itv [simp]: "itv (IMem_count_impl config inst st) = itv st"
  by (simp add: IMem_count_impl_def Let_def split: option.splits)

lemma IMem_branch_step:
  assumes "vec_wf st"
    and "IMemMap_find (imem_mapvec (IMem_count_impl config inst st) ! itv st) key = Some d'"
  shows "case IMemMap_find (imem_mapvec st ! itv st) key of
           None \<Rightarrow>
             never_branch d' \<or>
             (isTakenBranch inst \<and> key = pc inst \<and>
              (\<exists>d0. never_branch d0 \<and> same_branch_state (nextBranchHistory True d0) d'))
         | Some d \<Rightarrow>
             same_branch_state d d' \<or>
             (isTakenBranch inst \<and> key = pc inst \<and>
              same_branch_state (nextBranchHistory True d) d')"
proof -
  have i: "itv st < length (imem_mapvec st)" using assms(1) by (simp add: vec_wf_def)
  let ?w = "inst_count st < warmup_count config"
  show ?thesis
  proof (cases "IMemMap_find (imem_mapvec st ! itv st) (pc inst)")
    case None
    have ins: "IMemMap_find (imem_mapvec (insert_entry (itv st) kv st) ! itv st) k' =
       (if k' = pc inst then Some (snd kv) else IMemMap_find (imem_mapvec st ! itv st) k')"
      if "fst kv = pc inst" for kv k'
    proof (cases kv)
      case (Pair k v)
      then show ?thesis
        using find_insert_entry [OF assms(1) i, of k v k'] None that by simp
    qed
    show ?thesis
    proof (cases "key = pc inst")
      case True
      then show ?thesis
        using None assms(2) created_branch [of "pc inst" inst 0 ?w]
        by (auto simp add: IMem_count_impl_def Let_def ins split: if_splits)
    next
      case False
      then show ?thesis
        using None assms(2)
        by (auto simp add: IMem_count_impl_def Let_def ins split: if_splits option.splits)
    qed
  next
    case (Some d)
    show ?thesis
    proof (cases "opcodeMatch d (inst_opcode inst)")
      case False
      then show ?thesis using Some assms(2)
        by (auto simp add: IMem_count_impl_def Let_def split: option.splits)
    next
      case True
      let ?sd = "count_found config ?w (st, d)"
      have st: "IMemMap_find (imem_mapvec (store_entry (itv st) (pc inst) (fst ?sd, d1)) ! itv st) k' =
         (if k' = pc inst then Some d1 else IMemMap_find (imem_mapvec st ! itv st) k')" for d1 k'
        using i Some by (simp add: find_store_entry)
      show ?thesis
      proof (cases "key = pc inst")
        case k: True
        have p: "same_branch_state (nextBranchHistory True d) (nextBranchHistory True (snd ?sd))"
          by (rule same_branch_state_push) simp
        show ?thesis
          using Some True assms(2) k p
          by (auto simp add: IMem_count_impl_def Let_def st split: if_splits)
      next
        case k: False
        show ?thesis
          using Some True assms(2) k
          by (auto simp add: IMem_count_impl_def Let_def st split: if_splits option.splits)
      qed
    qed
  qed
qed


lemma untaken_inv_step:
  assumes "untaken_inv S st"
  shows "untaken_inv (insert inst S) (IMem_count_impl config inst st)"
proof -
  have wf: "vec_wf st" using assms by (simp add: untaken_inv_def)
  have "never_branch d'"
    if f: "IMemMap_find (imem_mapvec (IMem_count_impl config inst st) ! itv st) key = Some d'"
      and n: "\<forall>ev \<in> insert inst S. pc ev = key \<longrightarrow> \<not> isTakenBranch ev" for key d'
  proof (cases "IMemMap_find (imem_mapvec st ! itv st) key")
    case None
    then show ?thesis using IMem_branch_step [OF wf f] n by auto
  next
    case (Some d)
    have "never_branch d" using assms Some n by (simp add: untaken_inv_def)
    then show ?thesis
      using IMem_branch_step [OF wf f] Some n by (auto dest: same_branch_state_never)
  qed
  then show ?thesis using vec_wf_IMem [OF wf] by (simp add: untaken_inv_def)
qed

lemma untaken_inv_mono: "untaken_inv S st \<Longrightarrow> S \<subseteq> S' \<Longrightarrow> untaken_inv S' st"
  unfolding untaken_inv_def by blast

lemma untaken_inv_fields [simp]:
  "untaken_inv S (st\<lparr>cerr := x\<rparr>) = untaken_inv S st"
  "untaken_inv S (st\<lparr>inst_count := n\<rparr>) = untaken_inv S st"
  by (simp_all add: untaken_inv_def vec_wf_def)

lemma processTrace_Cons:
  "processTrace impl config (inst # insts) st =
     (let st1 = (if \<not> valid inst
                 then st\<lparr>cerr := cerr st @ [InvalidInst (index inst) (inst_opcode inst) (pc inst)]\<rparr>
                 else st)
      in if \<not> admitted config inst then processTrace impl config insts st1
         else (let st2 = impl config inst st1;
                   st3 = st2\<lparr>inst_count := inst_count st2 + 1\<rparr>
               in if inst_count st3 \<ge> keep_count config then st3
                  else processTrace impl config insts st3))"
  by (auto simp add: admitted_def Let_def)

lemma untaken_inv_run:
  "untaken_inv S st \<Longrightarrow>
   untaken_inv (S \<union> {ev \<in> set insts. admitted config ev})
     (processTrace IMem_count_impl config insts st)"
proof (induction insts arbitrary: S st)
  case Nil
  then show ?case by simp
next
  case (Cons inst insts)
  let ?st1 = "if \<not> valid inst
              then st\<lparr>cerr := cerr st @ [InvalidInst (index inst) (inst_opcode inst) (pc inst)]\<rparr>
              else st"
  have 1: "untaken_inv S ?st1" using Cons.prems by simp
  show ?case
  proof (cases "admitted config inst")
    case False
    then have "processTrace IMem_count_impl config (inst # insts) st =
               processTrace IMem_count_impl config insts ?st1"
      by (simp add: processTrace_Cons del: processTrace.simps)
    moreover have "S \<union> {ev \<in> set (inst # insts). admitted config ev} =
                   S \<union> {ev \<in> set insts. admitted config ev}"
      using False by auto
    ultimately show ?thesis using Cons.IH [OF 1] by simp
  next
    case True
    let ?st2 = "IMem_count_impl config inst ?st1"
    let ?st3 = "?st2\<lparr>inst_count := inst_count ?st2 + 1\<rparr>"
    have 3: "untaken_inv (insert inst S) ?st3"
      using untaken_inv_step [OF 1, of inst config] by simp
    have e: "processTrace IMem_count_impl config (inst # insts) st =
             (if inst_count ?st3 \<ge> keep_count config then ?st3
              else processTrace IMem_count_impl config insts ?st3)"
      using True by (simp add: processTrace_Cons Let_def del: processTrace.simps)
    have s: "S \<union> {ev \<in> set (inst # insts). admitted config ev} =
             insert inst S \<union> {ev \<in> set insts. admitted config ev}"
      using True by auto
    show ?thesis
    proof (cases "inst_count ?st3 \<ge> keep_count config")
      case k: True
      have "untaken_inv (insert inst S \<union> {ev \<in> set insts. admitted config ev}) ?st3"
        using 3 by (rule untaken_inv_mono) blast
      then show ?thesis unfolding e s using k by simp
    next
      case k: False
      show ?thesis unfolding e s using k Cons.IH [OF 3] by simp
    qed
  qed
qed

lemma untaken_inv_init: "untaken_inv {} IMemMapVec_init"
  by (simp add: untaken_inv_def vec_wf_init) (simp add: IMemMapVec_init_def)

lemma processTrace_IMem_itv [simp]:
  "itv (processTrace IMem_count_impl config insts st) = itv st"
  by (induction insts arbitrary: st) (simp_all add: Let_def)

lemma taken_branch_step:
  "IMemMap_find (imem_mapvec (IMem_count_impl demo_config taken_branch_inst one_entry_state) !
      itv one_entry_state) 0x100 =
   Some (nextBranchHistory True
          (snd (count_found demo_config False (one_entry_state, demo_entry 0x13))))"
  by (simp add: IMem_count_impl_def Let_def taken_branch_inst_def one_entry_state_eq
      IMemMapVec_init_def plain_inst_def opcodeMatch_def store_entry_def)

lemma untaken_run:
  "IMemMap_find (imem_mapvec (processTrace IMem_count_impl demo_config
      [plain_inst 0x100 0x13, plain_inst 0x100 0x13] IMemMapVec_init) ! 0) 0x100 =
   Some ((demo_entry 0x13)\<lparr>runlength := 2, count := 2\<rparr>)"
  by (simp add: eval_defs demo_entry_def word_le_nat_alt)

section \<open>The reports\<close>

lemmas print_defs = IMemMapVec_print_def print_written_def ranked_blocks_def print_maps_def print_map_def
  print_item_def print_init_def emplace_block_def getOpcodeSize_def key_less_def

lemma mismatch_run:
  "processTrace IMem_count_impl demo_config [plain_inst 0x100 0x13, plain_inst 0x100 0x33]
     IMemMapVec_init =
   IMemMapVec_init\<lparr>imem_mapvec := [[(0x100, demo_entry 0x13)]], inst_count := 2,
     cerr := [TwoOpcodes 0x100 0x13 0x33]\<rparr>"
  by (simp add: eval_defs demo_entry_def word_le_nat_alt)

lemma ranked_before_iff: "ranked_before a b \<longleftrightarrow> \<not> key_less a b"
  by (auto simp: ranked_before_def key_less_def)

lemma key_less_trans: "key_less a b \<Longrightarrow> key_less b c \<Longrightarrow> key_less a c"
  by (auto simp: key_less_def)

lemma key_less_incomp: "\<not> key_less x c \<Longrightarrow> key_less a c \<Longrightarrow> \<not> key_less x a" for x a c
  by (auto simp: key_less_def)

lemma set_multimap_emplace [simp]: "set (multimap_emplace kv xs) = insert kv (set xs)"
  by (induction xs) auto

lemma sorted_multimap_emplace:
  "sorted_wrt (\<lambda>x y. \<not> key_less (fst y) (fst x)) xs \<Longrightarrow>
   sorted_wrt (\<lambda>x y. \<not> key_less (fst y) (fst x)) (multimap_emplace kv xs)"
proof (induction xs)
  case Nil
  then show ?case by simp
next
  case (Cons x xs)
  show ?case
  proof (cases "key_less (fst kv) (fst x)")
    case True
    have "\<not> key_less (fst y) (fst kv)" if "y \<in> set xs" for y
    proof -
      have "\<not> key_less (fst y) (fst x)" using Cons.prems that by simp
      then show ?thesis using True by (rule key_less_incomp)
    qed
    moreover have "\<not> key_less (fst x) (fst kv)"
      using True by (auto simp: key_less_def)
    ultimately show ?thesis using True Cons.prems by simp
  next
    case False
    then show ?thesis using Cons by simp
  qed
qed


lemma block_sum_snoc [simp]: "block_sum (blk @ [e]) = block_sum blk + count (snd e)"
  by (simp add: block_sum_def)

lemma block_sum_Nil [simp]: "block_sum [] = 0" "block_sum [e] = count (snd e)"
  by (simp_all add: block_sum_def)

lemma blocks_inv_emplace:
  assumes "blocks_inv config a" "current_block a \<noteq> []"
  shows "sorted_wrt (\<lambda>x y. \<not> key_less (fst y) (fst x)) (emplace_block a) \<and>
         (\<forall>kb \<in> set (emplace_block a). block_key_ok kb)"
  using assms
  by (simp add: blocks_inv_def emplace_block_def sorted_multimap_emplace block_key_ok_def)

lemma blocks_inv_item:
  assumes "blocks_inv config a"
  shows "blocks_inv config (print_item config is_stdout a cur)"
proof (cases "sort_output config")
  case False
  then show ?thesis using assms by (simp add: print_item_def Let_def blocks_inv_def)
next
  case True
  show ?thesis
  proof (cases "first a")
    case f: True
    then show ?thesis using assms True by (simp add: print_item_def Let_def blocks_inv_def)
  next
    case f: False
    then have ne: "current_block a \<noteq> []" using assms True by (simp add: blocks_inv_def)
    show ?thesis
    proof (cases "prev_pc a + ucast (prev_size a) \<noteq> fst cur")
      case True
      then show ?thesis
        using blocks_inv_emplace [OF assms ne] f \<open>sort_output config\<close>
        by (simp add: print_item_def Let_def blocks_inv_def)
    next
      case False
      then show ?thesis
        using assms f \<open>sort_output config\<close>
        by (simp add: print_item_def Let_def blocks_inv_def)
    qed
  qed
qed

lemma blocks_inv_items:
  "blocks_inv config a \<Longrightarrow> blocks_inv config (foldl (print_item config is_stdout) a m)"
  by (induction m arbitrary: a) (simp_all add: blocks_inv_item)

lemma blocks_inv_fields [simp]:
  "blocks_inv config (a\<lparr>os := x\<rparr>) = blocks_inv config a"
  "blocks_inv config (a\<lparr>map_num := n\<rparr>) = blocks_inv config a"
  by (simp_all add: blocks_inv_def)

lemma blocks_inv_map:
  "blocks_inv config a \<Longrightarrow> blocks_inv config (print_map config is_stdout a m)"
  by (simp add: print_map_def Let_def blocks_inv_items)

lemma blocks_inv_maps:
  "blocks_inv config a \<Longrightarrow> blocks_inv config (foldl (print_map config is_stdout) a ms)"
  by (induction ms arbitrary: a) (simp_all add: blocks_inv_map)

lemma blocks_inv_init: "blocks_inv config print_init"
  by (simp add: blocks_inv_def print_init_def)

lemma blocks_inv_print_maps: "blocks_inv config (print_maps config is_stdout st)"
  unfolding print_maps_def using blocks_inv_init by (rule blocks_inv_maps)

lemma block_items_items:
  "block_items (snd (sorted_items c its) @ rest) = its @ block_items rest"
  by (induction its arbitrary: c) (simp_all add: Let_def)

lemma written_blocks_items:
  "written_blocks (snd (sorted_items c its) @ rest) = written_blocks rest"
  by (induction its arbitrary: c) (simp_all add: Let_def)

lemma block_items_report [simp]: "block_items (snd (sorted_report c bs)) = []"
  by (cases bs) (simp_all add: Let_def)

lemma written_blocks_report:
  "written_blocks (snd (sorted_report c bs)) =
     map (\<lambda>b. ((key_count (fst b), length (snd b)), snd b)) bs"
  by (induction bs arbitrary: c)
    (simp_all add: Let_def block_items_items written_blocks_items)

lemma set_concat_multimap_emplace:
  "set (concat (map snd (multimap_emplace kv xs))) = set (snd kv) \<union> set (concat (map snd xs))"
  by (induction xs) auto

lemma length_concat_multimap_emplace:
  "length (concat (map snd (multimap_emplace kv xs))) =
     length (snd kv) + length (concat (map snd xs))"
  by (induction xs) auto

lemma blocks_entries_item:
  assumes "sort_output config"
  shows "set (blocks_entries (print_item config is_stdout a cur)) = insert cur (set (blocks_entries a))"
    and "length (blocks_entries (print_item config is_stdout a cur)) = Suc (length (blocks_entries a))"
  using assms
  by (auto simp add: print_item_def Let_def blocks_entries_def emplace_block_def
      set_concat_multimap_emplace length_concat_multimap_emplace)

lemma blocks_entries_items:
  assumes "sort_output config"
  shows "set (blocks_entries (foldl (print_item config is_stdout) a m)) =
           set m \<union> set (blocks_entries a)"
    and "length (blocks_entries (foldl (print_item config is_stdout) a m)) =
           length m + length (blocks_entries a)"
  by (induction m arbitrary: a) (auto simp add: blocks_entries_item [OF assms])

lemma blocks_entries_fields [simp]:
  "blocks_entries (a\<lparr>os := x\<rparr>) = blocks_entries a"
  "blocks_entries (a\<lparr>map_num := n\<rparr>) = blocks_entries a"
  by (simp_all add: blocks_entries_def)

lemma blocks_entries_map:
  assumes "sort_output config"
  shows "set (blocks_entries (print_map config is_stdout a m)) = set m \<union> set (blocks_entries a)"
    and "length (blocks_entries (print_map config is_stdout a m)) =
           length m + length (blocks_entries a)"
  by (simp_all add: print_map_def Let_def blocks_entries_items [OF assms])

lemma blocks_entries_maps:
  assumes "sort_output config"
  shows "set (blocks_entries (foldl (print_map config is_stdout) a ms)) =
           set (concat ms) \<union> set (blocks_entries a)"
    and "length (blocks_entries (foldl (print_map config is_stdout) a ms)) =
           length (concat ms) + length (blocks_entries a)"
  by (induction ms arbitrary: a) (auto simp add: blocks_entries_map [OF assms])

lemma ranked_blocks_entries:
  assumes "sort_output config"
  shows "set (concat (map snd (ranked_blocks config is_stdout st))) = set (concat (imem_mapvec st))"
    and "length (concat (map snd (ranked_blocks config is_stdout st))) =
           length (concat (imem_mapvec st))"
proof -
  let ?a = "print_maps config is_stdout st"
  let ?sm = "if sort_output config \<and> current_block ?a \<noteq> [] then emplace_block ?a
             else sorted_map ?a"
  have e: "set (blocks_entries ?a) = set (concat (imem_mapvec st))"
    "length (blocks_entries ?a) = length (concat (imem_mapvec st))"
    unfolding print_maps_def blocks_entries_maps [OF assms]
    by (simp_all add: blocks_entries_def print_init_def length_concat_rev)
  have s: "set (concat (map snd ?sm)) = set (blocks_entries ?a)"
    "length (concat (map snd ?sm)) = length (blocks_entries ?a)"
    using assms
    by (auto simp add: blocks_entries_def emplace_block_def set_concat_multimap_emplace
        length_concat_multimap_emplace)
  have r: "ranked_blocks config is_stdout st = rev ?sm"
    by (simp add: ranked_blocks_def Let_def)
  show "set (concat (map snd (ranked_blocks config is_stdout st))) = set (concat (imem_mapvec st))"
    unfolding r using s(1) e(1) by (simp add: rev_map [symmetric])
  show "length (concat (map snd (ranked_blocks config is_stdout st))) =
           length (concat (imem_mapvec st))"
    unfolding r using s(2) e(2) by (simp add: rev_map [symmetric] length_concat_rev)
qed

lemma ranked_blocks_sorted:
  "sorted_wrt (\<lambda>x y. ranked_before (fst x) (fst y)) (ranked_blocks config is_stdout st) \<and>
   (\<forall>kb \<in> set (ranked_blocks config is_stdout st). block_key_ok kb)"
proof -
  let ?a = "print_maps config is_stdout st"
  let ?sm = "if sort_output config \<and> current_block ?a \<noteq> [] then emplace_block ?a
             else sorted_map ?a"
  have inv: "blocks_inv config ?a" by (rule blocks_inv_print_maps)
  have sm: "sorted_wrt (\<lambda>x y. \<not> key_less (fst y) (fst x)) ?sm \<and> (\<forall>kb \<in> set ?sm. block_key_ok kb)"
    using inv blocks_inv_emplace [OF inv] by (auto simp: blocks_inv_def)
  have r: "ranked_blocks config is_stdout st = rev ?sm"
    by (simp add: ranked_blocks_def Let_def)
  have 1: "sorted_wrt (\<lambda>x y. ranked_before (fst x) (fst y)) (rev ?sm)"
    using sm unfolding sorted_wrt_rev ranked_before_iff by simp
  have 2: "\<forall>kb \<in> set (rev ?sm). block_key_ok kb"
    using sm by simp
  show ?thesis unfolding r using 1 2 by blast
qed

lemma written_blocks_sorted:
  assumes "sorted_wrt (\<lambda>x y. ranked_before (fst x) (fst y)) bs" "\<forall>kb \<in> set bs. block_key_ok kb"
  shows "sorted_wrt block_before (map (\<lambda>b. ((key_count (fst b), length (snd b)), snd b)) bs)"
proof -
  have "sorted_wrt (\<lambda>x y. block_before ((key_count (fst x), length (snd x)), snd x)
                                       ((key_count (fst y), length (snd y)), snd y)) bs"
    using assms(1)
  proof (rule sorted_wrt_mono_rel [rotated])
    fix x y assume "x \<in> set bs" "y \<in> set bs" "ranked_before (fst x) (fst y)"
    then show "block_before ((key_count (fst x), length (snd x)), snd x)
                            ((key_count (fst y), length (snd y)), snd y)"
      using assms(2) by (auto simp add: block_before_def ranked_before_def block_key_ok_def)
  qed
  then show ?thesis by (simp add: sorted_wrt_map)
qed

lemma written_blocks_sound:
  assumes "\<forall>kb \<in> set bs. block_key_ok kb"
  shows "\<forall>b \<in> set (map (\<lambda>b. ((key_count (fst b), length (snd b)), snd b)) bs). block_sound b"
  using assms by (auto simp add: block_sound_def block_key_ok_def)

lemma ranked_demo_state_eq:
  "ranked_demo_state =
     IMemMapVec_init\<lparr>imem_mapvec :=
         [[(0x100, twice (demo_entry 0x13)), (0x200, demo_entry 0x13),
           (0x300, twice (demo_entry 0x13))]],
       inst_count := 5, max_count := 2, max_run_length := 2\<rparr>"
  by (simp add: ranked_demo_state_def eval_defs demo_entry_def twice_def word_le_nat_alt)

lemma ranked_demo_blocks:
  "ranked_blocks demo_config False ranked_demo_state =
     [(\<lparr>key_count = 2, key_pc = 0x100\<rparr>, [(0x100, twice (demo_entry 0x13))]),
      (\<lparr>key_count = 2, key_pc = 0x300\<rparr>, [(0x300, twice (demo_entry 0x13))]),
      (\<lparr>key_count = 1, key_pc = 0x200\<rparr>, [(0x200, demo_entry 0x13)])]"
  by (simp add: ranked_demo_state_eq print_defs Let_def IMemMapVec_init_def demo_config_def
      demo_entry_def twice_def IMemData_plain_def IMemData_init_def)

lemma ranked_demo_print:
  "print_written demo_config False ranked_demo_state =
     \<lparr>linear_report =
        [MapHeader 1, ItemLine 0x100 (twice (demo_entry 0x13)),
         ItemLine 0x200 (demo_entry 0x13), ItemLine 0x300 (twice (demo_entry 0x13))],
      sorted_report_lines =
        Some [TotalLine 5 2,
              BlockLine 2 1, SortedItemLine 0x100 (twice (demo_entry 0x13)) 2,
              BlockLine 2 1, SortedItemLine 0x300 (twice (demo_entry 0x13)) 4,
              BlockLine 1 1, SortedItemLine 0x200 (demo_entry 0x13) 5],
      print_cerr = []\<rparr>"
  by (simp add: print_written_def ranked_demo_blocks Let_def)
     (simp add: ranked_demo_state_eq print_defs Let_def IMemMapVec_init_def demo_config_def
      demo_entry_def twice_def IMemData_plain_def IMemData_init_def)

lemma table_items_body:
  "\<forall>l \<in> set body. \<not> is_header l \<Longrightarrow> rest = [] \<or> is_header (hd rest) \<Longrightarrow>
   table_items (body @ rest) = table_items body"
proof (induction body rule: table_items.induct)
  case 1
  then show ?case by (cases rest rule: table_items.cases) auto
qed auto

lemma report_tables_body:
  "\<forall>l \<in> set body. \<not> is_header l \<Longrightarrow> report_tables (body @ rest) = report_tables rest"
  by (induction body rule: report_tables.induct) auto

lemma report_tables_chunk:
  assumes "\<forall>l \<in> set body. \<not> is_header l" "rest = [] \<or> is_header (hd rest)"
  shows "report_tables (MapHeader n # body @ rest) = table_items body # report_tables rest"
  using assms by (simp add: table_items_body report_tables_body)

lemma print_item_os:
  assumes "\<not> is_stdout \<or> \<not> sort_output config"
  shows "\<exists>g. os (print_item config is_stdout a cur) = os a @ g @ [ItemLine (fst cur) (snd cur)] \<and>
             (g = [] \<or> g = [GapMarker])"
  using assms by (auto simp add: print_item_def Let_def)

lemma print_items_os:
  assumes "\<not> is_stdout \<or> \<not> sort_output config"
  shows "\<exists>body. os (foldl (print_item config is_stdout) a m) = os a @ body \<and>
                (\<forall>l \<in> set body. \<not> is_header l) \<and> table_items body = m"
proof (induction m arbitrary: a)
  case Nil
  then show ?case by simp
next
  case (Cons cur m)
  from print_item_os [OF assms, of a cur] obtain g
    where g: "os (print_item config is_stdout a cur) = os a @ g @ [ItemLine (fst cur) (snd cur)]"
      "g = [] \<or> g = [GapMarker]" by blast
  from Cons.IH [of "print_item config is_stdout a cur"] obtain body
    where b: "os (foldl (print_item config is_stdout) (print_item config is_stdout a cur) m) =
              os (print_item config is_stdout a cur) @ body"
      "\<forall>l \<in> set body. \<not> is_header l" "table_items body = m" by blast
  let ?body = "g @ ItemLine (fst cur) (snd cur) # body"
  have "os (foldl (print_item config is_stdout) a (cur # m)) = os a @ ?body"
    using g(1) b(1) by simp
  moreover have "\<forall>l \<in> set ?body. \<not> is_header l" using g(2) b(2) by auto
  moreover have "table_items ?body = cur # m" using g(2) b(3) by auto
  ultimately show ?case by blast
qed

lemma print_map_os:
  assumes "\<not> is_stdout \<or> \<not> sort_output config"
  shows "\<exists>body. os (print_map config is_stdout a m) = os a @ MapHeader (map_num a) # body \<and>
                (\<forall>l \<in> set body. \<not> is_header l) \<and> table_items body = m"
  using print_items_os [OF assms, of "a\<lparr>os := os a @ [MapHeader (map_num a)]\<rparr>" m]
  by (auto simp add: print_map_def Let_def)

lemma print_maps_os:
  assumes "\<not> is_stdout \<or> \<not> sort_output config"
  shows "\<exists>rest. os (foldl (print_map config is_stdout) a ms) = os a @ rest \<and>
                (rest = [] \<or> is_header (hd rest)) \<and> report_tables rest = ms"
proof (induction ms arbitrary: a)
  case Nil
  then show ?case by simp
next
  case (Cons m ms)
  from print_map_os [OF assms, of a m] obtain body
    where b: "os (print_map config is_stdout a m) = os a @ MapHeader (map_num a) # body"
      "\<forall>l \<in> set body. \<not> is_header l" "table_items body = m" by blast
  from Cons.IH [of "print_map config is_stdout a m"] obtain rest
    where r: "os (foldl (print_map config is_stdout) (print_map config is_stdout a m) ms) =
              os (print_map config is_stdout a m) @ rest"
      "rest = [] \<or> is_header (hd rest)" "report_tables rest = ms" by blast
  let ?rest = "MapHeader (map_num a) # body @ rest"
  have "os (foldl (print_map config is_stdout) a (m # ms)) = os a @ ?rest"
    using b(1) r(1) by simp
  moreover have "report_tables ?rest = m # ms"
    using report_tables_chunk [OF b(2) r(2)] b(3) r(3) by simp
  ultimately show ?case by auto
qed

lemma report_tables_print_maps:
  assumes "\<not> is_stdout \<or> \<not> sort_output config"
  shows "report_tables (os (print_maps config is_stdout st)) = rev (imem_mapvec st)"
  using print_maps_os [OF assms, of print_init "rev (imem_mapvec st)"]
  by (auto simp add: print_maps_def print_init_def)

lemma vec_wf_fields [simp]: "vec_wf (st\<lparr>inst_count := n\<rparr>) = vec_wf st"
  by (simp add: vec_wf_def)

lemma vec_wf_run:
  assumes "\<And>c i s. vec_wf s \<Longrightarrow> vec_wf (impl c i s)"
  shows "vec_wf st \<Longrightarrow> vec_wf (processTrace impl config insts st)"
proof (induction insts arbitrary: st)
  case Nil
  then show ?case by simp
next
  case (Cons inst insts)
  then show ?case
    by (simp add: processTrace_Cons Let_def assms del: processTrace.simps)
qed

lemma Java_new_table:
  "length (imem_mapvec (JavaIMem_count_impl config inst st)) = length (imem_mapvec st) \<or>
   imem_mapvec (JavaIMem_count_impl config inst st) =
     [createIMem (pc inst) inst 0 (inst_count st < warmup_count config)] # imem_mapvec st"
proof -
  have "length (imem_mapvec (JavaIMem_other_maps config inst st)) = length (imem_mapvec st) \<or>
   imem_mapvec (JavaIMem_other_maps config inst st) =
     [createIMem (pc inst) inst 0 (inst_count st < warmup_count config)] # imem_mapvec st"
    by (auto simp add: JavaIMem_other_maps_def Let_def insert_entry_def
        split: prod.splits option.splits)
  then show ?thesis
    by (auto simp add: JavaIMem_count_impl_def Let_def split: option.splits)
qed


lemma java_two_opcodes_eq:
  "java_two_opcodes =
     IMemMapVec_init\<lparr>imem_mapvec := [[(0x100, demo_entry 0x33)], [(0x100, demo_entry 0x13)]],
       inst_count := 2\<rparr>"
  by (simp add: java_two_opcodes_def eval_defs demo_entry_def word_le_nat_alt)

lemma java_third_table:
  "length (imem_mapvec (JavaIMem_count_impl demo_config (plain_inst 0x100 0x77) java_two_opcodes)) = 3"
  unfolding java_two_opcodes_eq
  by (simp add: eval_defs demo_entry_def)

section \<open>Counts and the cumulative count\<close>

text \<open>
  The Java variant counts every admitted event in some entry, so after a run from the
  initial state the entry counts sum to \<^verbatim>\<open>inst_count_\<close>. The cumulative count of the
  ranked report is the sum of all entry counts, so the assertion at its end fails exactly
  when that sum differs from \<^verbatim>\<open>inst_count_\<close>; after a run of the Java variant it holds.
\<close>

lemma count_found_count [simp]:
  "count (snd (count_found c w (st, d))) = count d + 1"
  by (simp add: count_found_snd)

lemma vec_sum_count_other_maps:
  assumes "vec_wf st"
  shows "vec_sum count (JavaIMem_other_maps config inst st) = vec_sum count st + 1"
proof (cases "java_search (pc inst) (inst_opcode inst) (imem_mapvec st) 0 None")
  case (Pair r itt)
  have i: "itv st < length (imem_mapvec st)" using assms by (simp add: vec_wf_def)
  let ?w = "inst_count st < warmup_count config"
  let ?kv = "createIMem (pc inst) inst 0 ?w"
  show ?thesis
  proof (cases r)
    case (Some jd)
    obtain j d where jd: "jd = (j, d)" by (cases jd)
    from java_search_found [OF Pair [unfolded Some jd]]
    have j: "j < length (imem_mapvec st)" "IMemMap_find (imem_mapvec st ! j) (pc inst) = Some d"
      by simp_all
    let ?sd = "count_found config ?w (st, d)"
    have "vec_sum count (store_entry j (pc inst) (fst ?sd, snd ?sd)) + count d =
          vec_sum count st + count (snd ?sd)"
      using j by (intro vec_sum_store) simp_all
    then have "vec_sum count (store_entry j (pc inst) ?sd) = vec_sum count st + 1"
      by (simp add: add.assoc [symmetric])
    then show ?thesis
      using Pair Some jd by (simp add: JavaIMem_other_maps_def Let_def)
  next
    case None
    show ?thesis
    proof (cases itt)
      case n: None
      have "vec_sum count (insert_entry 0 ?kv (st\<lparr>imem_mapvec := [] # imem_mapvec st, itv := 0\<rparr>)) =
            vec_sum count (st\<lparr>imem_mapvec := [] # imem_mapvec st, itv := 0\<rparr>) + count (snd ?kv)"
        by (intro vec_sum_insert) simp_all
      then show ?thesis
        using Pair None n by (simp add: JavaIMem_other_maps_def Let_def)
    next
      case (Some t)
      from java_search_itt [OF Pair [unfolded None]] Some
      have t: "t < length (imem_mapvec st)" "IMemMap_find (imem_mapvec st ! t) (pc inst) = None"
        by auto
      have 1: "vec_sum count (insert_entry t ?kv (st\<lparr>itv := t\<rparr>)) =
               vec_sum count (st\<lparr>itv := t\<rparr>) + count (snd ?kv)"
        using t by (intro vec_sum_insert) simp_all
      have 2: "vec_sum count (insert_entry (itv st) ?kv st) = vec_sum count st + count (snd ?kv)"
        if "IMemMap_find (imem_mapvec st ! itv st) (pc inst) = None"
        using i that by (intro vec_sum_insert) simp_all
      show ?thesis
        using Pair None Some 1 2 by (auto simp add: JavaIMem_other_maps_def Let_def)
    qed
  qed
qed

lemma vec_sum_count_Java:
  assumes "vec_wf st"
  shows "vec_sum count (JavaIMem_count_impl config inst st) = vec_sum count st + 1"
proof (cases "IMemMap_find (imem_mapvec st ! itv st) (pc inst)")
  case None
  then show ?thesis
    using vec_sum_count_other_maps [OF assms] by (simp add: JavaIMem_count_impl_def)
next
  case (Some d)
  have i: "itv st < length (imem_mapvec st)" using assms by (simp add: vec_wf_def)
  let ?sd = "count_found config (inst_count st < warmup_count config) (st, d)"
  have "vec_sum count (store_entry (itv st) (pc inst) (fst ?sd, snd ?sd)) + count d =
        vec_sum count st + count (snd ?sd)"
    using i Some by (intro vec_sum_store) simp_all
  then have "vec_sum count (store_entry (itv st) (pc inst) ?sd) = vec_sum count st + 1"
    by (simp add: add.assoc [symmetric])
  then show ?thesis using Some vec_sum_count_other_maps [OF assms]
    by (simp add: JavaIMem_count_impl_def Let_def)
qed

lemma Java_inst_count [simp]:
  "inst_count (JavaIMem_count_impl config inst st) = inst_count st"
  by (auto simp add: JavaIMem_count_impl_def JavaIMem_other_maps_def Let_def
      split: option.splits prod.splits)

lemma java_run_counts:
  "vec_wf st \<Longrightarrow> vec_sum count st = inst_count st \<Longrightarrow>
   vec_sum count (processTrace JavaIMem_count_impl config insts st) =
   inst_count (processTrace JavaIMem_count_impl config insts st)"
proof (induction insts arbitrary: st)
  case Nil
  then show ?case by simp
next
  case (Cons inst insts)
  let ?st1 = "if \<not> valid inst
              then st\<lparr>cerr := cerr st @ [InvalidInst (index inst) (inst_opcode inst) (pc inst)]\<rparr>
              else st"
  let ?st2 = "JavaIMem_count_impl config inst ?st1"
  let ?st3 = "?st2\<lparr>inst_count := inst_count ?st2 + 1\<rparr>"
  have 1: "vec_wf ?st1" "vec_sum count ?st1 = inst_count ?st1" using Cons.prems by simp_all
  have 3: "vec_wf ?st3" "vec_sum count ?st3 = inst_count ?st3"
    using vec_wf_Java [OF 1(1)] vec_sum_count_Java [OF 1(1)] 1(2) by simp_all
  show ?case
    using Cons.IH [OF 1] Cons.IH [OF 3] 3(2)
    by (simp add: processTrace_Cons Let_def del: processTrace.simps)
qed


lemma sorted_items_fst: "fst (sorted_items c its) = c + block_sum its"
  by (induction its arbitrary: c) (simp_all add: Let_def block_sum_def add.assoc)

lemma sorted_report_fst:
  "fst (sorted_report c bs) = c + sum_list (map (\<lambda>b. block_sum (snd b)) bs)"
  by (induction bs arbitrary: c) (simp_all add: Let_def sorted_items_fst add.assoc)

lemma sum_multimap_emplace:
  "sum_list (map (\<lambda>b. block_sum (snd b)) (multimap_emplace kv xs)) =
   sum_list (map (\<lambda>b. block_sum (snd b)) xs) + block_sum (snd kv)"
  by (induction xs) (simp_all add: add.assoc add.commute)

lemma blocks_total_item:
  assumes "sort_output config"
  shows "blocks_total (print_item config is_stdout a cur) = blocks_total a + count (snd cur)"
  using assms
  by (simp add: print_item_def Let_def blocks_total_def emplace_block_def sum_multimap_emplace
      add.assoc)

lemma blocks_total_items:
  assumes "sort_output config"
  shows "blocks_total (foldl (print_item config is_stdout) a m) = blocks_total a + table_sum count m"
  by (induction m arbitrary: a)
    (simp_all add: blocks_total_item [OF assms] table_sum_def add.assoc)

lemma blocks_total_fields [simp]:
  "blocks_total (a\<lparr>os := x\<rparr>) = blocks_total a"
  "blocks_total (a\<lparr>map_num := n\<rparr>) = blocks_total a"
  by (simp_all add: blocks_total_def)

lemma blocks_total_map:
  assumes "sort_output config"
  shows "blocks_total (print_map config is_stdout a m) = blocks_total a + table_sum count m"
  by (simp add: print_map_def Let_def blocks_total_items [OF assms])

lemma blocks_total_maps:
  assumes "sort_output config"
  shows "blocks_total (foldl (print_map config is_stdout) a ms) =
         blocks_total a + sum_list (map (table_sum count) ms)"
  by (induction ms arbitrary: a) (simp_all add: blocks_total_map [OF assms] add.assoc)

lemma cumulative_count_total:
  assumes "sort_output config"
  shows "fst (sorted_report 0 (ranked_blocks config is_stdout st)) = vec_sum count st"
proof -
  let ?a = "print_maps config is_stdout st"
  have t: "blocks_total ?a = vec_sum count st"
    unfolding print_maps_def blocks_total_maps [OF assms]
    by (simp add: blocks_total_def print_init_def vec_sum_def rev_map [symmetric])
  have "sum_list (map (\<lambda>b. block_sum (snd b))
          (if sort_output config \<and> current_block ?a \<noteq> [] then emplace_block ?a
           else sorted_map ?a)) = blocks_total ?a"
    using assms by (auto simp add: blocks_total_def emplace_block_def sum_multimap_emplace)
  then show ?thesis
    unfolding t [symmetric] ranked_blocks_def Let_def sorted_report_fst
    by (simp add: rev_map [symmetric])
qed

lemma print_fails_iff:
  "(\<exists>e. IMemMapVec_print config is_stdout st = Inl e) \<longleftrightarrow>
   sort_output config \<and> ranked_blocks config is_stdout st \<noteq> [] \<and> vec_sum count st \<noteq> inst_count st"
  using cumulative_count_total [of config is_stdout st]
  by (auto simp add: IMemMapVec_print_def Let_def)

lemma java_run_assert_passes:
  "\<not> (\<exists>e. IMemMapVec_print pconfig is_stdout
          (processTrace JavaIMem_count_impl config insts IMemMapVec_init) = Inl e)"
proof -
  have "vec_sum count IMemMapVec_init = inst_count IMemMapVec_init"
    by (simp add: IMemMapVec_init_def vec_sum_def table_sum_def)
  from java_run_counts [OF vec_wf_init this] show ?thesis
    unfolding print_fails_iff by simp
qed


lemma count_found_opcode [simp]:
  "opcode (snd (count_found c w (st, d))) = opcode d"
  by (simp add: count_found_snd)

lemma created_opcode [simp]:
  "opcode (snd (createIMem key inst p w)) = inst_opcode inst"
  by (simp add: createIMem_def IMemData_plain_def)

lemma Java_mismatch_counted:
  assumes "vec_wf st"
    and "IMemMap_find (imem_mapvec st ! itv st) (pc inst) = Some d"
    and "opcode d \<noteq> inst_opcode inst"
  shows "itv (JavaIMem_other_maps config inst st) \<noteq>
           itv st + (length (imem_mapvec (JavaIMem_other_maps config inst st)) -
                     length (imem_mapvec st)) \<and>
         (\<exists>d'. IMemMap_find (imem_mapvec (JavaIMem_other_maps config inst st) !
                   itv (JavaIMem_other_maps config inst st)) (pc inst) = Some d' \<and>
               opcode d' = inst_opcode inst \<and>
               ((\<exists>d0. IMemMap_find (imem_mapvec st ! itv (JavaIMem_other_maps config inst st))
                         (pc inst) = Some d0 \<and>
                      opcode d0 = inst_opcode inst \<and> count d' = count d0 + 1) \<or>
                ((\<forall>l < length (imem_mapvec st). \<forall>d0.
                     IMemMap_find (imem_mapvec st ! l) (pc inst) = Some d0 \<longrightarrow>
                     opcode d0 \<noteq> inst_opcode inst) \<and>
                 count d' = 1)))"
proof (cases "java_search (pc inst) (inst_opcode inst) (imem_mapvec st) 0 None")
  case (Pair r itt)
  let ?w = "inst_count st < warmup_count config"
  let ?kv = "createIMem (pc inst) inst 0 ?w"
  have kv: "?kv = (pc inst, snd ?kv)" by (simp add: createIMem_def)
  show ?thesis
  proof (cases r)
    case (Some jd)
    obtain j d0 where jd: "jd = (j, d0)" by (cases jd)
    from java_search_found [OF Pair [unfolded Some jd]]
    have j: "j < length (imem_mapvec st)" "IMemMap_find (imem_mapvec st ! j) (pc inst) = Some d0"
      "opcode d0 = inst_opcode inst"
      by (simp_all add: opcodeMatch_def)
    let ?sd = "count_found config ?w (st, d0)"
    have e: "JavaIMem_other_maps config inst st = (store_entry j (pc inst) ?sd)\<lparr>itv := j\<rparr>"
      using Pair Some jd by (simp add: JavaIMem_other_maps_def Let_def)
    have n: "j \<noteq> itv st" using j assms(2,3) by auto
    have f: "IMemMap_find (imem_mapvec (store_entry j (pc inst) ?sd) ! j) (pc inst) = Some (snd ?sd)"
      using j(1,2) by (simp add: find_store_entry)
    show ?thesis
      unfolding e using n f j(2,3) by simp
  next
    case None
    note nm = java_search_nomatch [OF Pair [unfolded None]]
    have nomatch: "\<forall>l < length (imem_mapvec st). \<forall>d0.
          IMemMap_find (imem_mapvec st ! l) (pc inst) = Some d0 \<longrightarrow> opcode d0 \<noteq> inst_opcode inst"
      using nm by (simp add: opcodeMatch_def)
    show ?thesis
    proof (cases itt)
      case n: None
      have e: "JavaIMem_other_maps config inst st =
               st\<lparr>imem_mapvec := [?kv] # imem_mapvec st, itv := 0\<rparr>"
        using Pair None n by (simp add: JavaIMem_other_maps_def Let_def insert_entry_def)
      have f: "IMemMap_find [?kv] (pc inst) = Some (snd ?kv)"
        by (subst kv) simp
      show ?thesis
        unfolding e using f nomatch by simp
    next
      case (Some t)
      from java_search_itt [OF Pair [unfolded None]] Some
      have t: "t < length (imem_mapvec st)" "IMemMap_find (imem_mapvec st ! t) (pc inst) = None"
        by auto
      have e: "JavaIMem_other_maps config inst st = insert_entry t ?kv (st\<lparr>itv := t\<rparr>)"
        using Pair None Some assms(2) by (simp add: JavaIMem_other_maps_def Let_def)
      have n: "t \<noteq> itv st" using t assms(2) by auto
      have wf: "vec_wf (st\<lparr>itv := t\<rparr>)" using assms(1) t(1) by (rule vec_wf_itv)
      have "IMemMap_find (imem_mapvec (insert_entry t (pc inst, snd ?kv) (st\<lparr>itv := t\<rparr>)) ! t)
              (pc inst) = Some (snd ?kv)"
        using t by (subst find_insert_entry [OF wf]) simp_all
      then have f: "IMemMap_find (imem_mapvec (insert_entry t ?kv (st\<lparr>itv := t\<rparr>)) ! t)
              (pc inst) = Some (snd ?kv)"
        using kv by simp
      show ?thesis
        unfolding e using n f nomatch by simp
    qed
  qed
qed

section \<open>Claims about one step of the profiler\<close>

text \<open>
  Claim C6. For one admitted event, in \<^verbatim>\<open>IMem::count_impl\<close> and in
  \<^verbatim>\<open>JavaIMem::count_impl\<close>, whether the event creates an entry or updates one: the
  warm-up counters and the run-length counters of all entries together either do not move,
  or exactly one of the two kinds grows by one. The warm-up increment and the run-length
  increment never both fire.
\<close>

theorem warmup_runlength_exclusive:
  assumes "vec_wf st"
  shows "window_step st (IMem_count_impl config inst st) \<and>
         window_step st (JavaIMem_count_impl config inst st)"
  using assms by (simp add: window_step_IMem window_step_Java)

text \<open>The witness: an event that updates the entry the event before it created.\<close>

theorem warmup_runlength_exclusive_witness:
  "vec_wf (IMem_count_impl demo_config (plain_inst 0x100 0x13) IMemMapVec_init) \<and>
   window_step (IMem_count_impl demo_config (plain_inst 0x100 0x13) IMemMapVec_init)
     (IMem_count_impl demo_config (plain_inst 0x100 0x13)
        (IMem_count_impl demo_config (plain_inst 0x100 0x13) IMemMapVec_init)) \<and>
   window_step (IMem_count_impl demo_config (plain_inst 0x100 0x13) IMemMapVec_init)
     (JavaIMem_count_impl demo_config (plain_inst 0x100 0x13)
        (IMem_count_impl demo_config (plain_inst 0x100 0x13) IMemMapVec_init))"
  using warmup_runlength_exclusive [OF vec_wf_IMem [OF vec_wf_init]] vec_wf_IMem [OF vec_wf_init]
  by simp

text \<open>
  Claim C8, as the code has it. When \<^verbatim>\<open>IMem::count_impl\<close> finds no entry for the PC in
  the active table and the instruction is a load or a store, the entry it creates records
  as its last-seen address the last address among the instruction's memory reads (for a
  load) or memory writes (for a store that is not a load), 0 when there is none, and it
  is classified as load/store exactly when that address is not 0.
\<close>

theorem created_entry_last_address:
  assumes "vec_wf st"
    and "IMemMap_find (imem_mapvec st ! itv st) (pc inst) = None"
    and "isLoad inst \<or> isStore inst"
  shows "\<exists>d. IMemMap_find (imem_mapvec (IMem_count_impl config inst st) !
                 itv (IMem_count_impl config inst st)) (pc inst) = Some d \<and>
             last_address d = last_access_address inst \<and>
             is_loadstore d = (last_access_address inst \<noteq> 0)"
proof -
  let ?a = "if isLoad inst then addr_loop 0 (getMemoryReads inst)
            else addr_loop 0 (getMemoryWrites inst)"
  let ?kv = "createIMem_addr (pc inst) inst 0 (inst_count st < warmup_count config) ?a"
  have i: "itv st < length (imem_mapvec st)" using assms(1) by (simp add: vec_wf_def)
  have a: "?a = last_access_address inst"
    by (simp add: last_access_address_def addr_loop_last)
  have s: "IMem_count_impl config inst st = insert_entry (itv st) ?kv st"
    using assms(2,3) by (auto simp add: IMem_count_impl_def Let_def)
  have "IMemMap_find (imem_mapvec (insert_entry (itv st) ?kv st) ! itv st) (pc inst) = Some (snd ?kv)"
    using find_insert_entry [OF assms(1) i, of "pc inst" "snd ?kv" "pc inst"] assms(2)
    by (simp add: createIMem_addr_def)
  moreover have "last_address (snd ?kv) = ?a" "is_loadstore (snd ?kv) = (?a \<noteq> 0)"
    by (simp_all add: createIMem_addr_def IMemData_mem_def)
  ultimately show ?thesis unfolding s a by simp
qed


text \<open>
  The claim as stated fails: a first-seen load reading \<open>0x1000\<close> then \<open>0x2000\<close> gets
  \<open>0x2000\<close>, not the first address, as its last-seen address; and a first-seen load whose
  only read is at address 0 is not classified as load/store.
\<close>

theorem first_address_counterexample:
  "IMemMap_find (imem_mapvec IMemMapVec_init ! itv IMemMapVec_init) (pc two_read_load) = None \<and>
   isLoad two_read_load \<and>
   hd (getMemoryReads two_read_load) = 0x1000 \<and>
   last_address (the (IMemMap_find
     (imem_mapvec (IMem_count_impl demo_config two_read_load IMemMapVec_init) ! 0) 0x100)) = 0x2000 \<and>
   IMemMap_find (imem_mapvec IMemMapVec_init ! itv IMemMapVec_init) (pc zero_addr_load) = None \<and>
   isLoad zero_addr_load \<and>
   \<not> is_loadstore (the (IMemMap_find
     (imem_mapvec (IMem_count_impl demo_config zero_addr_load IMemMapVec_init) ! 0) 0x100))"
  by (simp add: two_read_load_def zero_addr_load_def eval_defs)

theorem created_entry_last_address_witness:
  "vec_wf IMemMapVec_init \<and>
   IMemMap_find (imem_mapvec IMemMapVec_init ! itv IMemMapVec_init) (pc two_read_load) = None \<and>
   (isLoad two_read_load \<or> isStore two_read_load) \<and>
   last_access_address two_read_load = 0x2000 \<and>
   (\<exists>d. IMemMap_find (imem_mapvec (IMem_count_impl demo_config two_read_load IMemMapVec_init) !
            itv (IMem_count_impl demo_config two_read_load IMemMapVec_init)) (pc two_read_load) = Some d \<and>
        last_address d = 0x2000 \<and> is_loadstore d)"
proof -
  have 1: "IMemMap_find (imem_mapvec IMemMapVec_init ! itv IMemMapVec_init) (pc two_read_load) = None"
    by (simp add: IMemMapVec_init_def)
  have 2: "isLoad two_read_load \<or> isStore two_read_load"
    by (simp add: two_read_load_def plain_inst_def)
  have 3: "last_access_address two_read_load = 0x2000"
    by (simp add: last_access_address_def two_read_load_def plain_inst_def)
  show ?thesis
    using created_entry_last_address [OF vec_wf_init 1 2, of demo_config] vec_wf_init 1 2 3
    by simp
qed

text \<open>
  Claim C2, as the code has it. An admitted event whose PC has, in the active table, an
  entry with a different opcode: \<^verbatim>\<open>IMem::count_impl\<close> changes nothing but the diagnostic
  stream, to which it adds exactly one warning. \<^verbatim>\<open>JavaIMem::count_impl\<close> emits no
  warning; it leaves the active table, with the mismatching entry, as it was (one position
  later when a new table was put in front) and counts the event in another table: the
  counts of all entries together grow by one, and another table becomes the active one,
  where the PC now has an entry with the event's opcode, either an entry that was there
  with one count less, or a new entry with count 1 when no table held the PC with that
  opcode.
\<close>

theorem opcode_mismatch_handling:
  assumes "vec_wf st"
    and "IMemMap_find (imem_mapvec st ! itv st) (pc inst) = Some d"
    and "opcode d \<noteq> inst_opcode inst"
  shows "IMem_count_impl config inst st =
           st\<lparr>cerr := cerr st @ [TwoOpcodes (pc inst) (opcode d) (inst_opcode inst)]\<rparr> \<and>
         cerr (JavaIMem_count_impl config inst st) = cerr st \<and>
         imem_mapvec (JavaIMem_count_impl config inst st) !
           (itv st + (length (imem_mapvec (JavaIMem_count_impl config inst st)) -
                      length (imem_mapvec st))) =
         imem_mapvec st ! itv st \<and>
         vec_sum count (JavaIMem_count_impl config inst st) = vec_sum count st + 1 \<and>
         itv (JavaIMem_count_impl config inst st) \<noteq>
           itv st + (length (imem_mapvec (JavaIMem_count_impl config inst st)) -
                     length (imem_mapvec st)) \<and>
         (\<exists>d'. IMemMap_find (imem_mapvec (JavaIMem_count_impl config inst st) !
                   itv (JavaIMem_count_impl config inst st)) (pc inst) = Some d' \<and>
               opcode d' = inst_opcode inst \<and>
               ((\<exists>d0. IMemMap_find (imem_mapvec st ! itv (JavaIMem_count_impl config inst st))
                         (pc inst) = Some d0 \<and>
                      opcode d0 = inst_opcode inst \<and> count d' = count d0 + 1) \<or>
                ((\<forall>l < length (imem_mapvec st). \<forall>d0.
                     IMemMap_find (imem_mapvec st ! l) (pc inst) = Some d0 \<longrightarrow>
                     opcode d0 \<noteq> inst_opcode inst) \<and>
                 count d' = 1)))"
proof -
  have 1: "IMem_count_impl config inst st =
           st\<lparr>cerr := cerr st @ [TwoOpcodes (pc inst) (opcode d) (inst_opcode inst)]\<rparr>"
    using assms(2,3) by (simp add: IMem_count_impl_def Let_def opcodeMatch_def)
  have 2: "JavaIMem_count_impl config inst st = JavaIMem_other_maps config inst st"
    using assms(2,3) by (simp add: JavaIMem_count_impl_def Let_def opcodeMatch_def)
  note 3 = vec_sum_count_Java [OF assms(1), of config inst, unfolded 2]
  show ?thesis
    unfolding 2
    using 1 Java_mismatch_table_kept [OF assms, of config] 3
      Java_mismatch_counted [OF assms, of config]
    by blast
qed

text \<open>
  The claim as stated fails for the Java variant: a second opcode at PC \<open>0x100\<close> emits no
  warning.
\<close>

theorem java_mismatch_warning_counterexample:
  "IMemMap_find (imem_mapvec (JavaIMem_count_impl demo_config (plain_inst 0x100 0x13) IMemMapVec_init) !
      itv (JavaIMem_count_impl demo_config (plain_inst 0x100 0x13) IMemMapVec_init)) 0x100 \<noteq> None \<and>
   opcode (the (IMemMap_find
      (imem_mapvec (JavaIMem_count_impl demo_config (plain_inst 0x100 0x13) IMemMapVec_init) !
       itv (JavaIMem_count_impl demo_config (plain_inst 0x100 0x13) IMemMapVec_init)) 0x100)) = 0x13 \<and>
   inst_opcode (plain_inst 0x100 0x33) = 0x33 \<and>
   cerr (JavaIMem_count_impl demo_config (plain_inst 0x100 0x13) IMemMapVec_init) = [] \<and>
   cerr (JavaIMem_count_impl demo_config (plain_inst 0x100 0x33)
          (JavaIMem_count_impl demo_config (plain_inst 0x100 0x13) IMemMapVec_init)) = []"
  by (simp add: eval_defs)


theorem opcode_mismatch_handling_witness:
  "vec_wf one_entry_state \<and>
   IMemMap_find (imem_mapvec one_entry_state ! itv one_entry_state) (pc (plain_inst 0x100 0x33)) =
     Some (snd (createIMem 0x100 (plain_inst 0x100 0x13) 0 False)) \<and>
   opcode (snd (createIMem 0x100 (plain_inst 0x100 0x13) 0 False)) \<noteq>
     inst_opcode (plain_inst 0x100 0x33) \<and>
   IMem_count_impl demo_config (plain_inst 0x100 0x33) one_entry_state =
     one_entry_state\<lparr>cerr := [TwoOpcodes 0x100 0x13 0x33]\<rparr> \<and>
   cerr (JavaIMem_count_impl demo_config (plain_inst 0x100 0x33) one_entry_state) = [] \<and>
   vec_sum count one_entry_state = 1 \<and>
   vec_sum count (JavaIMem_count_impl demo_config (plain_inst 0x100 0x33) one_entry_state) = 2 \<and>
   itv one_entry_state = 0 \<and>
   length (imem_mapvec one_entry_state) = 1 \<and>
   length (imem_mapvec (JavaIMem_count_impl demo_config (plain_inst 0x100 0x33) one_entry_state)) = 2 \<and>
   itv (JavaIMem_count_impl demo_config (plain_inst 0x100 0x33) one_entry_state) = 0 \<and>
   imem_mapvec (JavaIMem_count_impl demo_config (plain_inst 0x100 0x33) one_entry_state) ! 1 =
     imem_mapvec one_entry_state ! 0 \<and>
   IMemMap_find
     (imem_mapvec (JavaIMem_count_impl demo_config (plain_inst 0x100 0x33) one_entry_state) ! 0)
     0x100 = Some (demo_entry 0x33)"
proof -
  note t = opcode_mismatch_handling [OF one_entry_state_wf one_entry_state_find
      one_entry_state_opcode, of demo_config]
  have c: "cerr one_entry_state = []"
    by (simp add: one_entry_state_def eval_defs)
  have o: "opcode (snd (createIMem 0x100 (plain_inst 0x100 0x13) 0 False)) = 0x13"
    "pc (plain_inst 0x100 0x33) = 0x100" "inst_opcode (plain_inst 0x100 0x33) = 0x33"
    by (simp_all add: eval_defs)
  have v: "vec_sum count one_entry_state = 1"
    by (simp add: one_entry_state_eq vec_sum_def table_sum_def demo_entry_def
        IMemData_plain_def IMemData_init_def IMemMapVec_init_def)
  have j: "JavaIMem_count_impl demo_config (plain_inst 0x100 0x33) one_entry_state =
           one_entry_state\<lparr>imem_mapvec := [(0x100, demo_entry 0x33)] # imem_mapvec one_entry_state,
             itv := 0\<rparr>"
    by (simp add: one_entry_state_eq eval_defs demo_entry_def IMemMapVec_init_def)
  have l: "itv one_entry_state = 0" "length (imem_mapvec one_entry_state) = 1"
    by (simp_all add: one_entry_state_eq IMemMapVec_init_def)
  show ?thesis
    using t one_entry_state_wf one_entry_state_find one_entry_state_opcode v l
    unfolding c o by (simp add: j)
qed
text \<open>
  Claim C3. In \<^verbatim>\<open>JavaIMem::count_impl\<close>, when the active table holds the event's PC with
  a different opcode, all tables are searched. If table \<open>j\<close> is the first that holds the PC
  with the event's opcode, it becomes the active table and its entry gets the counter
  updates of the match path. If every table holds the PC with a different opcode, a new
  table holding just the new entry is put in front and becomes active. Otherwise the last
  table \<open>t\<close> that lacks the PC becomes active and receives the new entry.
\<close>

theorem java_mismatch_search:
  assumes "vec_wf st"
    and "IMemMap_find (imem_mapvec st ! itv st) (pc inst) = Some d0"
    and "opcode d0 \<noteq> inst_opcode inst"
  shows "(j < length (imem_mapvec st) \<and>
          IMemMap_find (imem_mapvec st ! j) (pc inst) = Some d \<and> opcode d = inst_opcode inst \<and>
          (\<forall>l < j. \<forall>d'. IMemMap_find (imem_mapvec st ! l) (pc inst) = Some d' \<longrightarrow>
                    opcode d' \<noteq> inst_opcode inst) \<longrightarrow>
          JavaIMem_count_impl config inst st =
            (store_entry j (pc inst)
               (count_found config (inst_count st < warmup_count config) (st, d)))\<lparr>itv := j\<rparr> \<and>
          itv (JavaIMem_count_impl config inst st) = j \<and>
          IMemMap_find (imem_mapvec (JavaIMem_count_impl config inst st) ! j) (pc inst) =
            Some (snd (count_found config (inst_count st < warmup_count config) (st, d)))) \<and>
         ((\<forall>l < length (imem_mapvec st).
             \<exists>d'. IMemMap_find (imem_mapvec st ! l) (pc inst) = Some d' \<and>
                  opcode d' \<noteq> inst_opcode inst) \<longrightarrow>
          JavaIMem_count_impl config inst st =
            st\<lparr>imem_mapvec :=
                 [createIMem (pc inst) inst 0 (inst_count st < warmup_count config)] # imem_mapvec st,
               itv := 0\<rparr>) \<and>
         ((\<forall>l < length (imem_mapvec st).
             \<forall>d'. IMemMap_find (imem_mapvec st ! l) (pc inst) = Some d' \<longrightarrow>
                  opcode d' \<noteq> inst_opcode inst) \<and>
          t < length (imem_mapvec st) \<and> IMemMap_find (imem_mapvec st ! t) (pc inst) = None \<and>
          (\<forall>l. t < l \<and> l < length (imem_mapvec st) \<longrightarrow>
                IMemMap_find (imem_mapvec st ! l) (pc inst) \<noteq> None) \<longrightarrow>
          JavaIMem_count_impl config inst st =
            insert_entry t (createIMem (pc inst) inst 0 (inst_count st < warmup_count config))
              (st\<lparr>itv := t\<rparr>) \<and>
          itv (JavaIMem_count_impl config inst st) = t \<and>
          IMemMap_find (imem_mapvec (JavaIMem_count_impl config inst st) ! t) (pc inst) =
            Some (snd (createIMem (pc inst) inst 0 (inst_count st < warmup_count config))))"
proof -
  let ?ts = "imem_mapvec st" and ?key = "pc inst" and ?opc = "inst_opcode inst"
  let ?w = "inst_count st < warmup_count config"
  have o: "JavaIMem_count_impl config inst st = JavaIMem_other_maps config inst st"
    using assms(2,3) by (simp add: JavaIMem_count_impl_def Let_def opcodeMatch_def)
  have A: "JavaIMem_other_maps config inst st =
            (store_entry j ?key (count_found config ?w (st, d)))\<lparr>itv := j\<rparr> \<and>
          itv (JavaIMem_other_maps config inst st) = j \<and>
          IMemMap_find (imem_mapvec (JavaIMem_other_maps config inst st) ! j) ?key =
            Some (snd (count_found config ?w (st, d)))"
    if a: "j < length ?ts" "IMemMap_find (?ts ! j) ?key = Some d" "opcode d = ?opc"
      "\<forall>l < j. \<forall>d'. IMemMap_find (?ts ! l) ?key = Some d' \<longrightarrow> opcode d' \<noteq> ?opc"
  proof -
    from java_search_first_match [OF a] obtain itt
      where "java_search ?key ?opc ?ts 0 None = (Some (j, d), itt)" by blast
    then have e: "JavaIMem_other_maps config inst st =
            (store_entry j ?key (count_found config ?w (st, d)))\<lparr>itv := j\<rparr>"
      by (simp add: JavaIMem_other_maps_def Let_def)
    have "IMemMap_find (imem_mapvec (store_entry j ?key (count_found config ?w (st, d))) ! j) ?key =
            Some (snd (count_found config ?w (st, d)))"
      using a(1,2) by (simp add: find_store_entry)
    then show ?thesis unfolding e by simp
  qed
  have B: "JavaIMem_other_maps config inst st =
            st\<lparr>imem_mapvec := [createIMem ?key inst 0 ?w] # ?ts, itv := 0\<rparr>"
    if b: "\<forall>l < length ?ts. \<exists>d'. IMemMap_find (?ts ! l) ?key = Some d' \<and> opcode d' \<noteq> ?opc"
    using java_search_all_differ [OF b]
    by (simp add: JavaIMem_other_maps_def Let_def insert_entry_def)
  have C: "JavaIMem_other_maps config inst st =
            insert_entry t (createIMem ?key inst 0 ?w) (st\<lparr>itv := t\<rparr>) \<and>
          itv (JavaIMem_other_maps config inst st) = t \<and>
          IMemMap_find (imem_mapvec (JavaIMem_other_maps config inst st) ! t) ?key =
            Some (snd (createIMem ?key inst 0 ?w))"
    if c: "\<forall>l < length ?ts. \<forall>d'. IMemMap_find (?ts ! l) ?key = Some d' \<longrightarrow> opcode d' \<noteq> ?opc"
      "t < length ?ts" "IMemMap_find (?ts ! t) ?key = None"
      "\<forall>l. t < l \<and> l < length ?ts \<longrightarrow> IMemMap_find (?ts ! l) ?key \<noteq> None"
  proof -
    have e: "JavaIMem_other_maps config inst st =
            insert_entry t (createIMem ?key inst 0 ?w) (st\<lparr>itv := t\<rparr>)"
      using java_search_last_absent [OF c] assms(2)
      by (simp add: JavaIMem_other_maps_def Let_def)
    have wf: "vec_wf (st\<lparr>itv := t\<rparr>)" using assms(1) c(2) by (rule vec_wf_itv)
    have "IMemMap_find (imem_mapvec (insert_entry t (?key, snd (createIMem ?key inst 0 ?w))
            (st\<lparr>itv := t\<rparr>)) ! t) ?key = Some (snd (createIMem ?key inst 0 ?w))"
      using c(2,3) by (subst find_insert_entry [OF wf]) simp_all
    moreover have "(?key, snd (createIMem ?key inst 0 ?w)) = createIMem ?key inst 0 ?w"
      by (simp add: createIMem_def)
    ultimately show ?thesis unfolding e by simp
  qed
  show ?thesis unfolding o using A B C by blast
qed


text \<open>The three cases at concrete states.\<close>

theorem java_mismatch_search_witness:
  "vec_wf two_table_state \<and>
   imem_mapvec two_table_state = [[(0x100, demo_entry 0x33)], [(0x100, demo_entry 0x13)]] \<and>
   itv two_table_state = 0 \<and>
   itv (JavaIMem_count_impl demo_config (plain_inst 0x100 0x13) two_table_state) = 1 \<and>
   IMemMap_find
     (imem_mapvec (JavaIMem_count_impl demo_config (plain_inst 0x100 0x13) two_table_state) ! 1)
     0x100 = Some ((demo_entry 0x13)\<lparr>runlength := 2, count := 2\<rparr>) \<and>
   JavaIMem_count_impl demo_config (plain_inst 0x100 0x77) two_table_state =
     two_table_state\<lparr>imem_mapvec := [(0x100, demo_entry 0x77)] # imem_mapvec two_table_state,
       itv := 0\<rparr> \<and>
   vec_wf three_entry_state \<and>
   imem_mapvec three_entry_state =
     [[(0x100, demo_entry 0x33), (0x200, demo_entry 0x55)], [(0x100, demo_entry 0x13)]] \<and>
   itv three_entry_state = 0 \<and>
   itv (JavaIMem_count_impl demo_config (plain_inst 0x200 0x66) three_entry_state) = 1 \<and>
   IMemMap_find
     (imem_mapvec (JavaIMem_count_impl demo_config (plain_inst 0x200 0x66) three_entry_state) ! 1)
     0x200 = Some (demo_entry 0x66)"
proof -
  have t2: "imem_mapvec two_table_state = [[(0x100, demo_entry 0x33)], [(0x100, demo_entry 0x13)]]"
    "itv two_table_state = 0" "inst_count two_table_state = 0"
    by (simp_all add: two_table_state_eq IMemMapVec_init_def)
  have t3: "imem_mapvec three_entry_state =
     [[(0x100, demo_entry 0x33), (0x200, demo_entry 0x55)], [(0x100, demo_entry 0x13)]]"
    "itv three_entry_state = 0" "inst_count three_entry_state = 0"
    by (simp_all add: three_entry_state_eq IMemMapVec_init_def)
  have a2: "IMemMap_find (imem_mapvec two_table_state ! itv two_table_state)
      (pc (plain_inst 0x100 0x13)) = Some (demo_entry 0x33)"
    "IMemMap_find (imem_mapvec two_table_state ! itv two_table_state)
      (pc (plain_inst 0x100 0x77)) = Some (demo_entry 0x33)"
    by (simp_all add: t2)
  have a3: "IMemMap_find (imem_mapvec three_entry_state ! itv three_entry_state)
      (pc (plain_inst 0x200 0x66)) = Some (demo_entry 0x55)"
    by (simp add: t3)
  have n2: "opcode (demo_entry 0x33) \<noteq> inst_opcode (plain_inst 0x100 0x13)"
    "opcode (demo_entry 0x33) \<noteq> inst_opcode (plain_inst 0x100 0x77)"
    "opcode (demo_entry 0x55) \<noteq> inst_opcode (plain_inst 0x200 0x66)"
    by simp_all
  let ?s2 = two_table_state and ?s3 = three_entry_state
  let ?i13 = "plain_inst 0x100 0x13" and ?i77 = "plain_inst 0x100 0x77"
  let ?i66 = "plain_inst 0x200 0x66"
  have c: "snd (count_found demo_config (inst_count ?s2 < warmup_count demo_config)
             (?s2, demo_entry 0x13)) = (demo_entry 0x13)\<lparr>runlength := 2, count := 2\<rparr>"
    by (simp add: count_found_snd t2 demo_config_def demo_entry_def IMemData_plain_def
        IMemData_init_def)
  have hA: "1 < length (imem_mapvec ?s2) \<and>
          IMemMap_find (imem_mapvec ?s2 ! 1) (pc ?i13) = Some (demo_entry 0x13) \<and>
          opcode (demo_entry 0x13) = inst_opcode ?i13 \<and>
          (\<forall>l < 1. \<forall>d'. IMemMap_find (imem_mapvec ?s2 ! l) (pc ?i13) = Some d' \<longrightarrow>
                    opcode d' \<noteq> inst_opcode ?i13)"
    by (simp add: t2)
  have hB: "\<forall>l < length (imem_mapvec ?s2).
             \<exists>d'. IMemMap_find (imem_mapvec ?s2 ! l) (pc ?i77) = Some d' \<and>
                  opcode d' \<noteq> inst_opcode ?i77"
    by (simp add: t2 All_less_2)
  have hC: "(\<forall>l < length (imem_mapvec ?s3).
             \<forall>d'. IMemMap_find (imem_mapvec ?s3 ! l) (pc ?i66) = Some d' \<longrightarrow>
                  opcode d' \<noteq> inst_opcode ?i66) \<and>
          1 < length (imem_mapvec ?s3) \<and> IMemMap_find (imem_mapvec ?s3 ! 1) (pc ?i66) = None \<and>
          (\<forall>l. 1 < l \<and> l < length (imem_mapvec ?s3) \<longrightarrow>
                IMemMap_find (imem_mapvec ?s3 ! l) (pc ?i66) \<noteq> None)"
    by (simp add: t3 All_less_2)
  from java_mismatch_search [OF demo_states_wf(2) a2(1) n2(1),
        where j = 1 and d = "demo_entry 0x13" and config = demo_config and t = 0] hA
  have "itv (JavaIMem_count_impl demo_config ?i13 ?s2) = 1 \<and>
     IMemMap_find (imem_mapvec (JavaIMem_count_impl demo_config ?i13 ?s2) ! 1) (pc ?i13) =
       Some (snd (count_found demo_config (inst_count ?s2 < warmup_count demo_config)
                   (?s2, demo_entry 0x13)))"
    by blast
  then have A: "itv (JavaIMem_count_impl demo_config ?i13 ?s2) = 1 \<and>
     IMemMap_find (imem_mapvec (JavaIMem_count_impl demo_config ?i13 ?s2) ! 1) 0x100 =
       Some ((demo_entry 0x13)\<lparr>runlength := 2, count := 2\<rparr>)"
    unfolding c by simp
  from java_mismatch_search [OF demo_states_wf(2) a2(2) n2(2),
        where j = 0 and d = "demo_entry 0x13" and config = demo_config and t = 0] hB
  have "JavaIMem_count_impl demo_config ?i77 ?s2 =
     ?s2\<lparr>imem_mapvec :=
            [createIMem (pc ?i77) ?i77 0 (inst_count ?s2 < warmup_count demo_config)] #
            imem_mapvec ?s2,
          itv := 0\<rparr>"
    by blast
  then have B: "JavaIMem_count_impl demo_config ?i77 ?s2 =
     ?s2\<lparr>imem_mapvec := [(0x100, demo_entry 0x77)] # imem_mapvec ?s2, itv := 0\<rparr>"
    by simp
  from java_mismatch_search [OF demo_states_wf(3) a3 n2(3),
        where j = 0 and d = "demo_entry 0x13" and config = demo_config and t = 1] hC
  have "itv (JavaIMem_count_impl demo_config ?i66 ?s3) = 1 \<and>
     IMemMap_find (imem_mapvec (JavaIMem_count_impl demo_config ?i66 ?s3) ! 1) (pc ?i66) =
       Some (snd (createIMem (pc ?i66) ?i66 0 (inst_count ?s3 < warmup_count demo_config)))"
    by blast
  then have C: "itv (JavaIMem_count_impl demo_config ?i66 ?s3) = 1 \<and>
     IMemMap_find (imem_mapvec (JavaIMem_count_impl demo_config ?i66 ?s3) ! 1) 0x200 =
       Some (demo_entry 0x66)"
    by simp
  show ?thesis using demo_states_wf(2,3) t2(1,2) t3(1,2) A B C by blast
qed

text \<open>
  Claim C10. In \<^verbatim>\<open>IMem::count_impl\<close> the branch flag, the branch bitset and its cursor
  of an entry change only when the event is a taken branch at the entry's PC, and the
  change is one push of the bit 1 (\<^verbatim>\<open>nextBranchHistory(true)\<close>); a new entry starts
  unmarked with an empty history, or with that one push when the creating event is a taken
  branch. So over a whole run from the initial state, an entry at a PC where no admitted
  event was a taken branch is not marked as a branch and has no history.
\<close>

theorem branch_only_when_taken:
  assumes "vec_wf st"
  shows "(\<forall>key d'.
            IMemMap_find (imem_mapvec (IMem_count_impl config inst st) ! itv st) key = Some d' \<longrightarrow>
            (case IMemMap_find (imem_mapvec st ! itv st) key of
               None \<Rightarrow>
                 never_branch d' \<or>
                 (isTakenBranch inst \<and> key = pc inst \<and>
                  (\<exists>d0. never_branch d0 \<and> same_branch_state (nextBranchHistory True d0) d'))
             | Some d \<Rightarrow>
                 same_branch_state d d' \<or>
                 (isTakenBranch inst \<and> key = pc inst \<and>
                  same_branch_state (nextBranchHistory True d) d'))) \<and>
         (\<forall>key d.
            IMemMap_find (imem_mapvec (processTrace IMem_count_impl config insts IMemMapVec_init) ! 0)
              key = Some d \<longrightarrow>
            (\<forall>ev \<in> set insts. admitted config ev \<and> pc ev = key \<longrightarrow> \<not> isTakenBranch ev) \<longrightarrow>
            never_branch d)"
proof -
  have "untaken_inv ({} \<union> {ev \<in> set insts. admitted config ev})
          (processTrace IMem_count_impl config insts IMemMapVec_init)"
    using untaken_inv_init by (rule untaken_inv_run)
  moreover have "itv (processTrace IMem_count_impl config insts IMemMapVec_init) = 0"
    by (simp add: IMemMapVec_init_def)
  ultimately have run: "\<forall>key d.
      IMemMap_find (imem_mapvec (processTrace IMem_count_impl config insts IMemMapVec_init) ! 0)
        key = Some d \<longrightarrow>
      (\<forall>ev \<in> set insts. admitted config ev \<and> pc ev = key \<longrightarrow> \<not> isTakenBranch ev) \<longrightarrow>
      never_branch d"
    by (simp add: untaken_inv_def)
  show ?thesis using IMem_branch_step [OF assms] run by blast
qed


text \<open>
  The witness: a taken branch updates an entry by one push of 1, and two not-taken events
  at a PC leave its entry unmarked.
\<close>

theorem branch_only_when_taken_witness:
  "vec_wf one_entry_state \<and>
   IMemMap_find (imem_mapvec one_entry_state ! itv one_entry_state) 0x100 =
     Some (demo_entry 0x13) \<and>
   never_branch (demo_entry 0x13) \<and>
   isTakenBranch taken_branch_inst \<and>
   same_branch_state (nextBranchHistory True (demo_entry 0x13))
     (the (IMemMap_find
        (imem_mapvec (IMem_count_impl demo_config taken_branch_inst one_entry_state) !
         itv one_entry_state) 0x100)) \<and>
   never_branch
     (the (IMemMap_find (imem_mapvec (processTrace IMem_count_impl demo_config
        [plain_inst 0x100 0x13, plain_inst 0x100 0x13] IMemMapVec_init) ! 0) 0x100))"
proof -
  note t = branch_only_when_taken [OF demo_states_wf(1), of demo_config taken_branch_inst
      "[plain_inst 0x100 0x13, plain_inst 0x100 0x13]"]
  let ?d1 = "nextBranchHistory True
          (snd (count_found demo_config False (one_entry_state, demo_entry 0x13)))"
  let ?d2 = "(demo_entry 0x13)\<lparr>runlength := 2, count := 2\<rparr>"
  have f: "IMemMap_find (imem_mapvec one_entry_state ! itv one_entry_state) 0x100 =
     Some (demo_entry 0x13)"
    by (simp add: one_entry_state_eq IMemMapVec_init_def)
  have n: "never_branch (demo_entry 0x13)"
    by (simp add: never_branch_def demo_entry_def IMemData_plain_def IMemData_init_def)
  have b: "isTakenBranch taken_branch_inst" "is_branch ?d1" "\<not> is_branch (demo_entry 0x13)"
    by (simp_all add: taken_branch_inst_def plain_inst_def nextBranchHistory_def demo_entry_def
        IMemData_plain_def IMemData_init_def)
  from t taken_branch_step have "case IMemMap_find (imem_mapvec one_entry_state ! itv one_entry_state) 0x100 of
       None \<Rightarrow>
         never_branch ?d1 \<or>
         (isTakenBranch taken_branch_inst \<and> 0x100 = pc taken_branch_inst \<and>
          (\<exists>d0. never_branch d0 \<and> same_branch_state (nextBranchHistory True d0) ?d1))
     | Some d \<Rightarrow>
         same_branch_state d ?d1 \<or>
         (isTakenBranch taken_branch_inst \<and> 0x100 = pc taken_branch_inst \<and>
          same_branch_state (nextBranchHistory True d) ?d1)"
    by blast
  then have 1: "same_branch_state (nextBranchHistory True (demo_entry 0x13)) ?d1"
    unfolding f using b(2,3) by (auto simp: same_branch_state_def)
  have "\<forall>ev \<in> set [plain_inst 0x100 0x13, plain_inst 0x100 0x13].
          admitted demo_config ev \<and> pc ev = 0x100 \<longrightarrow> \<not> isTakenBranch ev"
    by (simp add: plain_inst_def)
  with t untaken_run have 2: "never_branch ?d2" by blast
  show ?thesis
    using demo_states_wf(1) f n b(1) 1 2 unfolding taken_branch_step untaken_run by simp
qed

section \<open>Claims about the reports\<close>

text \<open>
  Claim C1 does not hold of the code. Two admitted events at PC \<open>0x100\<close> with opcodes
  \<open>0x13\<close> and \<open>0x33\<close>, in the non-Java profiler: the second event only emits the warning,
  yet \<^verbatim>\<open>inst_count_\<close> is incremented for it. The counts of all entries sum to 1, the
  admitted events are 2, and \<^verbatim>\<open>print\<close> with \<^verbatim>\<open>sort_output\<close> ends in the failed
  \<^verbatim>\<open>stf_assert(cumulative_count == inst_count_)\<close>.
\<close>

theorem cumulative_assert_fails:
  "vec_sum count
     (processTrace IMem_count_impl demo_config [plain_inst 0x100 0x13, plain_inst 0x100 0x33]
        IMemMapVec_init) = 1 \<and>
   inst_count
     (processTrace IMem_count_impl demo_config [plain_inst 0x100 0x13, plain_inst 0x100 0x33]
        IMemMapVec_init) = 2 \<and>
   IMemMapVec_print demo_config False
     (processTrace IMem_count_impl demo_config [plain_inst 0x100 0x13, plain_inst 0x100 0x33]
        IMemMapVec_init) = Inl (CumulativeMismatch 1 2)"
  unfolding mismatch_run
  by (simp add: print_defs Let_def IMemMapVec_init_def demo_config_def demo_entry_def
      IMemData_plain_def IMemData_init_def vec_sum_def table_sum_def)

text \<open>
  Claim C5. With \<^verbatim>\<open>sort_output\<close> and at least one entry in the tables, \<^verbatim>\<open>print\<close> writes
  the frequency-ranked report, also when the assertion at its end fails afterwards. In
  the lines written, of any two blocks the one written first has the larger count in its
  header, or the same count and a first item line whose PC is not larger. Every block
  written has item lines, and its header holds the sum of their counts and their number.
  The item lines of all blocks together are the entries of all tables. \<^verbatim>\<open>print\<close> ends
  in the failed assertion exactly when, with \<^verbatim>\<open>sort_output\<close> and at least one entry, the
  counts of all entries do not sum to \<^verbatim>\<open>inst_count_\<close>; otherwise it returns with what it
  wrote.
\<close>

theorem ranked_report_order:
  "(sort_output config \<and> concat (imem_mapvec st) \<noteq> [] \<longrightarrow>
      (\<exists>ls. sorted_report_lines (print_written config is_stdout st) = Some ls)) \<and>
   (\<forall>ls. sorted_report_lines (print_written config is_stdout st) = Some ls \<longrightarrow>
      sorted_wrt block_before (written_blocks ls) \<and>
      (\<forall>b \<in> set (written_blocks ls). block_sound b) \<and>
      set (concat (map snd (written_blocks ls))) = set (concat (imem_mapvec st)) \<and>
      length (concat (map snd (written_blocks ls))) = length (concat (imem_mapvec st))) \<and>
   IMemMapVec_print config is_stdout st =
     (if sort_output config \<and> concat (imem_mapvec st) \<noteq> [] \<and> vec_sum count st \<noteq> inst_count st
      then Inl (CumulativeMismatch (vec_sum count st) (inst_count st))
      else Inr (print_written config is_stdout st))"
proof -
  let ?rb = "ranked_blocks config is_stdout st"
  let ?f = "\<lambda>b. ((key_count (fst b), length (snd b)), snd b)"
  have 1: "\<exists>ls. sorted_report_lines (print_written config is_stdout st) = Some ls"
    if s: "sort_output config" and e: "concat (imem_mapvec st) \<noteq> []"
  proof -
    have "length (concat (map snd ?rb)) \<noteq> 0"
      using ranked_blocks_entries(2) [OF s, of is_stdout st] e by simp
    then have "?rb \<noteq> []" by auto
    then show ?thesis using s by (simp add: print_written_def Let_def)
  qed
  have 2: "sorted_wrt block_before (written_blocks ls) \<and>
      (\<forall>b \<in> set (written_blocks ls). block_sound b) \<and>
      set (concat (map snd (written_blocks ls))) = set (concat (imem_mapvec st)) \<and>
      length (concat (map snd (written_blocks ls))) = length (concat (imem_mapvec st))"
    if w: "sorted_report_lines (print_written config is_stdout st) = Some ls" for ls
  proof -
    from w have s: "sort_output config"
      and ls: "ls = TotalLine (inst_count st) (max_count st) # snd (sorted_report 0 ?rb)"
      by (auto simp add: print_written_def Let_def split: if_splits)
    have wb: "written_blocks ls = map ?f ?rb"
      unfolding ls by (simp add: written_blocks_report)
    have m: "map snd (map ?f ?rb) = map snd ?rb"
      by simp
    note rs = ranked_blocks_sorted [of config is_stdout st]
    have a: "sorted_wrt block_before (map ?f ?rb)"
      using rs by (intro written_blocks_sorted) blast+
    have b: "\<forall>b \<in> set (map ?f ?rb). block_sound b"
      using rs by (intro written_blocks_sound) blast
    show ?thesis
      unfolding wb m using a b ranked_blocks_entries [OF s, of is_stdout st] by blast
  qed
  have ne: "?rb \<noteq> [] \<longleftrightarrow> concat (imem_mapvec st) \<noteq> []" if s: "sort_output config"
  proof -
    note l = ranked_blocks_entries(2) [OF s, of is_stdout st]
    have "\<forall>b \<in> set (map ?f ?rb). block_sound b"
      using ranked_blocks_sorted [of config is_stdout st] by (intro written_blocks_sound) blast
    then have "\<forall>b \<in> set ?rb. snd b \<noteq> []"
      by (simp add: block_sound_def)
    then have a: "?rb \<noteq> [] \<longleftrightarrow> concat (map snd ?rb) \<noteq> []"
      by (cases ?rb) auto
    have b: "concat (map snd ?rb) = [] \<longleftrightarrow> concat (imem_mapvec st) = []"
      using l by (metis length_0_conv)
    show ?thesis using a b by blast
  qed
  have 3: "IMemMapVec_print config is_stdout st =
     (if sort_output config \<and> concat (imem_mapvec st) \<noteq> [] \<and> vec_sum count st \<noteq> inst_count st
      then Inl (CumulativeMismatch (vec_sum count st) (inst_count st))
      else Inr (print_written config is_stdout st))"
  proof (cases "sort_output config")
    case True
    show ?thesis
      using True ne [OF True] cumulative_count_total [OF True, of is_stdout st]
      by (simp add: IMemMapVec_print_def Let_def)
  next
    case False
    then show ?thesis by (simp add: IMemMapVec_print_def Let_def)
  qed
  show ?thesis using 1 2 3 by blast
qed

theorem ranked_report_order_witness:
  "sort_output demo_config \<and>
   concat (imem_mapvec ranked_demo_state) \<noteq> [] \<and>
   sorted_report_lines (print_written demo_config False ranked_demo_state) =
     Some [TotalLine 5 2,
           BlockLine 2 1, SortedItemLine 0x100 (twice (demo_entry 0x13)) 2,
           BlockLine 2 1, SortedItemLine 0x300 (twice (demo_entry 0x13)) 4,
           BlockLine 1 1, SortedItemLine 0x200 (demo_entry 0x13) 5] \<and>
   written_blocks (the (sorted_report_lines (print_written demo_config False ranked_demo_state))) =
     [((2, 1), [(0x100, twice (demo_entry 0x13))]),
      ((2, 1), [(0x300, twice (demo_entry 0x13))]),
      ((1, 1), [(0x200, demo_entry 0x13)])] \<and>
   sorted_wrt block_before
     [((2, 1), [(0x100, twice (demo_entry 0x13))]),
      ((2, 1), [(0x300, twice (demo_entry 0x13))]),
      ((1, 1), [(0x200, demo_entry 0x13)])] \<and>
   block_sound ((2, 1), [(0x300, twice (demo_entry 0x13))]) \<and>
   \<not> block_before ((2, 1), [(0x300, twice (demo_entry 0x13))])
       ((2, 1), [(0x100, twice (demo_entry 0x13))]) \<and>
   vec_sum count ranked_demo_state = inst_count ranked_demo_state \<and>
   IMemMapVec_print demo_config False ranked_demo_state =
     Inr (print_written demo_config False ranked_demo_state)"
proof -
  note t = ranked_report_order [where config = demo_config and is_stdout = False
      and st = ranked_demo_state]
  have s: "sort_output demo_config"
    by (simp add: demo_config_def)
  have e: "concat (imem_mapvec ranked_demo_state) \<noteq> []"
    by (simp add: ranked_demo_state_eq)
  have v: "vec_sum count ranked_demo_state = inst_count ranked_demo_state"
    by (simp add: ranked_demo_state_eq vec_sum_def table_sum_def twice_def demo_entry_def
        IMemData_plain_def IMemData_init_def)
  have n: "\<not> block_before ((2, 1), [(0x300, twice (demo_entry 0x13))])
       ((2, 1), [(0x100, twice (demo_entry 0x13))])"
    by (simp add: block_before_def word_le_nat_alt)
  show ?thesis
    using t s e v n by (simp add: ranked_demo_print)
qed
text \<open>
  Claim C4, as the code has it. After any run of either profiler, the address-ordered
  report (where its item lines are written at all) lists the tables from the back of the
  vector to its front, each with its entries in ascending PC order. A new table is always
  put at the front of the vector, so the report of the state after an event that created
  a table is the report before it followed by the new table: tables are emitted from
  first-created to most-recently-created.
\<close>

theorem linear_report_tables:
  assumes "impl = IMem_count_impl \<or> impl = JavaIMem_count_impl"
    and "st = processTrace impl config insts IMemMapVec_init"
    and "\<not> is_stdout \<or> \<not> sort_output pconfig"
  shows "report_tables (os (print_maps pconfig is_stdout st)) = rev (imem_mapvec st) \<and>
         (\<forall>m \<in> set (report_tables (os (print_maps pconfig is_stdout st))).
            sorted_wrt (<) (map fst m)) \<and>
         (\<forall>r. IMemMapVec_print pconfig is_stdout st = Inr r \<longrightarrow>
            linear_report r = os (print_maps pconfig is_stdout st)) \<and>
         (length (imem_mapvec (JavaIMem_count_impl config inst st)) = length (imem_mapvec st) \<or>
          report_tables (os (print_maps pconfig is_stdout (JavaIMem_count_impl config inst st))) =
            report_tables (os (print_maps pconfig is_stdout st)) @
            [[createIMem (pc inst) inst 0 (inst_count st < warmup_count config)]])"
proof -
  have "vec_wf (processTrace impl config insts IMemMapVec_init)"
    using assms(1) vec_wf_init
    by (auto intro!: vec_wf_run vec_wf_IMem vec_wf_Java)
  then have wf: "\<forall>m \<in> set (rev (imem_mapvec st)). sorted_wrt (<) (map fst m)"
    using assms(2) by (simp add: vec_wf_def)
  note rt = report_tables_print_maps [OF assms(3)]
  have 3: "linear_report r = os (print_maps pconfig is_stdout st)"
    if "IMemMapVec_print pconfig is_stdout st = Inr r" for r
    using that by (auto simp add: IMemMapVec_print_def print_written_def Let_def split: if_splits)
  have 4: "length (imem_mapvec (JavaIMem_count_impl config inst st)) = length (imem_mapvec st) \<or>
          rev (imem_mapvec (JavaIMem_count_impl config inst st)) =
            rev (imem_mapvec st) @
            [[createIMem (pc inst) inst 0 (inst_count st < warmup_count config)]]"
    using Java_new_table [of config inst st] by auto
  show ?thesis unfolding rt using wf 3 4 by blast
qed

text \<open>
  The claim as stated fails: the table created second, for opcode \<open>0x33\<close>, is emitted
  after the first-created one, as "MAP 2".
\<close>

theorem table_order_counterexample:
  "imem_mapvec (processTrace JavaIMem_count_impl demo_config [plain_inst 0x100 0x13] IMemMapVec_init) =
     [[(0x100, demo_entry 0x13)]] \<and>
   imem_mapvec (processTrace JavaIMem_count_impl demo_config
     [plain_inst 0x100 0x13, plain_inst 0x100 0x33] IMemMapVec_init) =
     [[(0x100, demo_entry 0x33)], [(0x100, demo_entry 0x13)]] \<and>
   os (print_maps demo_config False
     (processTrace JavaIMem_count_impl demo_config
        [plain_inst 0x100 0x13, plain_inst 0x100 0x33] IMemMapVec_init)) =
     [MapHeader 1, ItemLine 0x100 (demo_entry 0x13),
      MapHeader 2, ItemLine 0x100 (demo_entry 0x33)]"
  unfolding java_two_opcodes_def [symmetric] java_two_opcodes_eq
  by (simp add: eval_defs demo_entry_def word_le_nat_alt print_defs)


theorem linear_report_tables_witness:
  "java_two_opcodes =
     processTrace JavaIMem_count_impl demo_config [plain_inst 0x100 0x13, plain_inst 0x100 0x33]
       IMemMapVec_init \<and>
   report_tables (os (print_maps demo_config False java_two_opcodes)) =
     [[(0x100, demo_entry 0x13)], [(0x100, demo_entry 0x33)]] \<and>
   report_tables (os (print_maps demo_config False
       (JavaIMem_count_impl demo_config (plain_inst 0x100 0x77) java_two_opcodes))) =
     [[(0x100, demo_entry 0x13)], [(0x100, demo_entry 0x33)], [(0x100, demo_entry 0x77)]]"
proof -
  have h: "\<not> False \<or> \<not> sort_output demo_config" by simp
  note t = linear_report_tables [OF disjI2 [OF refl] java_two_opcodes_def h,
      where inst = "plain_inst 0x100 0x77"]
  from t have 1: "report_tables (os (print_maps demo_config False java_two_opcodes)) =
     rev (imem_mapvec java_two_opcodes)"
    by (rule conjunct1)
  have 2: "rev (imem_mapvec java_two_opcodes) =
     [[(0x100, demo_entry 0x13)], [(0x100, demo_entry 0x33)]]"
    by (simp add: java_two_opcodes_eq)
  have 3: "length (imem_mapvec (JavaIMem_count_impl demo_config (plain_inst 0x100 0x77)
      java_two_opcodes)) \<noteq> length (imem_mapvec java_two_opcodes)"
    unfolding java_third_table by (simp add: java_two_opcodes_eq)
  from t 3 have "report_tables (os (print_maps demo_config False
       (JavaIMem_count_impl demo_config (plain_inst 0x100 0x77) java_two_opcodes))) =
     report_tables (os (print_maps demo_config False java_two_opcodes)) @
       [[createIMem (pc (plain_inst 0x100 0x77)) (plain_inst 0x100 0x77) 0
           (inst_count java_two_opcodes < warmup_count demo_config)]]"
    by blast
  then have 4: "report_tables (os (print_maps demo_config False
       (JavaIMem_count_impl demo_config (plain_inst 0x100 0x77) java_two_opcodes))) =
     [[(0x100, demo_entry 0x13)], [(0x100, demo_entry 0x33)], [(0x100, demo_entry 0x77)]]"
    unfolding 1 2 by simp
  show ?thesis using java_two_opcodes_def 1 [unfolded 2] 4 by blast
qed

section \<open>The morph identifier\<close>

lemma horner_value:
  "foldl (\<lambda>acc c. acc * base + digit_val c) a ds = a * base ^ length ds + number_value base ds"
  by (induction ds arbitrary: a) (simp_all add: algebra_simps)

lemma digit_not_special:
  assumes "is_digit base c" "base \<le> 16"
  shows "\<not> isspace c" "c \<noteq> CHR ''-''" "c \<noteq> CHR ''+''" "c \<noteq> CHR ''x''" "c \<noteq> CHR ''X''"
proof -
  have d: "digit_val c < 16" using assms by (simp add: is_digit_def)
  show "\<not> isspace c"
    using d by (auto simp add: isspace_def digit_val_def Let_def split: if_splits)
  show "c \<noteq> CHR ''-''" using d by (auto simp add: digit_val_def)
  show "c \<noteq> CHR ''+''" using d by (auto simp add: digit_val_def)
  show "c \<noteq> CHR ''x''" using d by (auto simp add: digit_val_def)
  show "c \<noteq> CHR ''X''" using d by (auto simp add: digit_val_def)
qed

lemma stoull_digits:
  assumes "numeral_string base s" "base \<le> 16"
  shows "stoull base s = Inr (of_nat (number_value base s))"
proof -
  from assms(1) obtain c r where s: "s = c # r" and c: "is_digit base c"
    and all: "list_all (is_digit base) s" and v: "number_value base s < 2 ^ 64"
    by (cases s) (auto simp: numeral_string_def)
  note n = digit_not_special [OF c assms(2)]
  have 1: "dropWhile isspace s = s" using s n(1) by simp
  have 2: "skip_sign s = (False, s)" using s n(2,3) by (simp add: skip_sign_def)
  have 3: "skip_prefix base s = s"
  proof (cases r)
    case Nil
    then show ?thesis using s by (simp add: skip_prefix_def)
  next
    case (Cons x r')
    have "is_digit base x" using all s Cons by simp
    from digit_not_special(4,5) [OF this assms(2)] show ?thesis
      using s Cons by (simp add: skip_prefix_def split: list.splits)
  qed
  have 4: "takeWhile (is_digit base) s = s"
    using all by (simp add: takeWhile_eq_all_conv list_all_iff)
  have ne: "s \<noteq> []" using s by simp
  show ?thesis
    unfolding stoull_def Let_def 1 2 snd_conv fst_conv 3 4 horner_value
    using v ne by simp
qed

lemma stoull_hex_prefix:
  assumes "numeral_string 16 s"
  shows "stoull 16 (CHR ''0'' # CHR ''x'' # s) = Inr (of_nat (number_value 16 s))"
proof -
  from assms obtain c r where s: "s = c # r" and c: "is_digit 16 c"
    and all: "list_all (is_digit 16) s" and v: "number_value 16 s < 2 ^ 64"
    by (cases s) (auto simp: numeral_string_def)
  have 1: "dropWhile isspace (CHR ''0'' # CHR ''x'' # s) = CHR ''0'' # CHR ''x'' # s"
    by (simp add: isspace_def)
  have 2: "skip_sign (CHR ''0'' # CHR ''x'' # s) = (False, CHR ''0'' # CHR ''x'' # s)"
    by (simp add: skip_sign_def)
  have 3: "skip_prefix 16 (CHR ''0'' # CHR ''x'' # s) = s"
    using s c by (simp add: skip_prefix_def)
  have 4: "takeWhile (is_digit 16) s = s"
    using all by (simp add: takeWhile_eq_all_conv list_all_iff)
  have ne: "s \<noteq> []" using s by simp
  show ?thesis
    unfolding stoull_def Let_def 1 2 snd_conv fst_conv 3 4 horner_value
    using v ne by simp
qed

text \<open>
  Claim C9. \<^verbatim>\<open>convertMorphId_\<close> reads the identifier of a morph keyed by sequence index
  (STFID) as a decimal number and the identifier of a morph keyed by PC as a hexadecimal
  number, with or without the \<^verbatim>\<open>0x\<close> prefix: for a string of digits of the base whose
  value fits 64 bits, the result is that value.
\<close>

theorem morph_id_radix:
  "(numeral_string 10 s \<longrightarrow> convertMorphId STFID s = Inr (of_nat (number_value 10 s))) \<and>
   (numeral_string 16 s \<longrightarrow>
      convertMorphId PC s = Inr (of_nat (number_value 16 s)) \<and>
      convertMorphId PC (CHR ''0'' # CHR ''x'' # s) = Inr (of_nat (number_value 16 s)))"
  by (simp add: stoull_digits stoull_hex_prefix)

text \<open>The witness: \<^verbatim>\<open>1000\<close> is one thousand as a sequence index and \<open>0x1000\<close> as a PC.\<close>

lemma demo_1000: "numeral_string 10 ''1000''" "numeral_string 16 ''1000''"
  "number_value 10 ''1000'' = 1000" "number_value 16 ''1000'' = 4096"
  by (simp_all add: numeral_string_def is_digit_def digit_val_def)

theorem morph_id_radix_witness:
  "numeral_string 10 ''1000'' \<and> numeral_string 16 ''1000'' \<and>
   convertMorphId STFID ''1000'' = Inr 1000 \<and>
   convertMorphId PC ''1000'' = Inr 0x1000 \<and>
   convertMorphId PC ''0x1000'' = Inr 0x1000"
proof -
  note t = morph_id_radix [of "''1000''"]
  from t demo_1000(1) have "convertMorphId STFID ''1000'' = Inr (of_nat (number_value 10 ''1000''))"
    by blast
  then have a: "convertMorphId STFID ''1000'' = Inr 1000"
    unfolding demo_1000(3) by simp
  from t demo_1000(2) have "convertMorphId PC ''1000'' = Inr (of_nat (number_value 16 ''1000'')) \<and>
      convertMorphId PC ''0x1000'' = Inr (of_nat (number_value 16 ''1000''))"
    by blast
  then have b: "convertMorphId PC ''1000'' = Inr 0x1000 \<and> convertMorphId PC ''0x1000'' = Inr 0x1000"
    unfolding demo_1000(4) by simp
  show ?thesis using demo_1000(1,2) a b by blast
qed

end
